theory Spec2Isabelle
  imports Complex_Main "HOL-Library.AList"
begin

section \<open>Data model\<close>

text \<open>
  The request models of \<^verbatim>\<open>app.py\<close>. Node ids, node types and port names are
  Python strings. A Python \<^verbatim>\<open>dict\<close> keeps its keys in insertion order, and the
  scheduler iterates over one (\<^verbatim>\<open>indeg.items()\<close>), so dictionaries are association
  lists: \<open>map_of\<close> is \<^verbatim>\<open>d.get(k)\<close>, \<open>AList.update\<close> is \<^verbatim>\<open>d[k] = v\<close> (an
  existing key keeps its place, a new key goes last). The values that flow through ports and
  node configuration (\<^verbatim>\<open>Any\<close>) are a type parameter \<open>'v\<close>. The fields \<^verbatim>\<open>id\<close> and
  \<^verbatim>\<open>type\<close> of a node are \<open>node_id\<close> and \<open>node_type\<close>; \<^verbatim>\<open>position\<close> holds the
  coordinates of the editor, which the engine never reads.
\<close>

record PortLink =
  from_node :: string
  from_port :: string
  to_node :: string
  to_port :: string

record 'v Node =
  node_id :: string
  node_type :: string
  position :: "(string \<times> real) list"
  data :: "(string \<times> 'v) list"

record 'v Workflow =
  nodes :: "'v Node list"
  links :: "PortLink list"

text \<open>A log entry: the four fixed keys, and the keys merged in by \<^verbatim>\<open>entry.update(extra)\<close>.\<close>

datatype 'v extra_value = OutputsVal "(string \<times> 'v) list" | ErrorVal string

record 'v LogEntry =
  log_step :: int
  log_node :: string
  log_type :: string
  log_status :: string
  log_extra :: "(string \<times> 'v extra_value) list"

record 'v ExecutionContext =
  outputs :: "(string \<times> (string \<times> 'v) list) list"
  logs :: "'v LogEntry list"
  step :: int

definition ExecutionContext_init :: "'v ExecutionContext" where
  "ExecutionContext_init = \<lparr>outputs = [], logs = [], step = 0\<rparr>"

text \<open>
  Every failure of the engine is a Python exception. \<open>GraphError\<close> is the
  \<^verbatim>\<open>ValueError\<close> of \<^verbatim>\<open>topo_sort\<close>, \<open>UnsupportedNode\<close> the one raised for a type
  without a runner, \<open>NodeExecutionError\<close> whatever a runner raised (with its \<^verbatim>\<open>str(e)\<close>),
  and \<open>KeyError\<close> a subscript on a dictionary that lacks the key. \<open>error_message\<close>
  is \<^verbatim>\<open>str(e)\<close>, in UTF-8 (the accented letter of the first message is two bytes).
\<close>

datatype error = KeyError string | GraphError | UnsupportedNode string | NodeExecutionError string

definition error_message :: "error \<Rightarrow> string" where
  "error_message e =
     (case e of
        KeyError k \<Rightarrow> [CHR 0x27] @ k @ [CHR 0x27]
      | GraphError \<Rightarrow> ''Grafo con ciclos o links inv'' @ [CHR 0xC3, CHR 0xA1] @ ''lidos. No se puede ejecutar.''
      | UnsupportedNode t \<Rightarrow> ''Nodo no soportado: '' @ t
      | NodeExecutionError m \<Rightarrow> m)"

section \<open>Dependency map and input resolution\<close>

type_synonym input_map = "(string \<times> (string \<times> (string \<times> string)) list) list"

definition setdefault :: "'k \<Rightarrow> 'a \<Rightarrow> ('k \<times> 'a) list \<Rightarrow> ('k \<times> 'a) list" where
  "setdefault k d m = (case map_of m k of None \<Rightarrow> AList.update k d m | Some _ \<Rightarrow> m)"

text \<open>
  The body of the loop of \<^verbatim>\<open>build_input_map\<close>. The source dictionary
  \<^verbatim>\<open>{"from_node": ..., "from_port": ...}\<close> is the pair of its two values. After
  \<^verbatim>\<open>setdefault\<close> the key is present, so the subscript \<^verbatim>\<open>m[link.to_node]\<close> cannot
  raise; the \<open>None\<close> branch is kept for totality only.
\<close>

definition bind_link :: "input_map \<Rightarrow> PortLink \<Rightarrow> input_map" where
  "bind_link m link =
     (let m1 = setdefault (to_node link) [] m in
      case map_of m1 (to_node link) of
        None \<Rightarrow> m1
      | Some inner \<Rightarrow>
          AList.update (to_node link)
            (AList.update (to_port link) (from_node link, from_port link) inner) m1)"

definition build_input_map :: "'v Workflow \<Rightarrow> input_map" where
  "build_input_map workflow = foldl bind_link [] (links workflow)"

text \<open>
  \<^verbatim>\<open>resolve_input\<close>: two \<^verbatim>\<open>dict.get\<close> lookups with the default \<^verbatim>\<open>{}\<close>, then two
  more on the captured outputs. Python's \<^verbatim>\<open>None\<close> is \<open>None\<close>; a source entry is a
  two-key dictionary, hence truthy, so \<^verbatim>\<open>not src\<close> holds exactly when the lookup found
  nothing. The values \<open>'v\<close> stand for the values other than \<^verbatim>\<open>None\<close>.
\<close>

definition resolve_input ::
  "string \<Rightarrow> string \<Rightarrow> input_map \<Rightarrow> 'v ExecutionContext \<Rightarrow> 'v option" where
  "resolve_input nid port im ctx =
     (case map_of (case map_of im nid of None \<Rightarrow> [] | Some d \<Rightarrow> d) port of
        None \<Rightarrow> None
      | Some src \<Rightarrow>
          map_of (case map_of (outputs ctx) (fst src) of None \<Rightarrow> [] | Some d \<Rightarrow> d) (snd src))"

definition node_log ::
  "'v ExecutionContext \<Rightarrow> 'v Node \<Rightarrow> string \<Rightarrow> (string \<times> 'v extra_value) list option
     \<Rightarrow> 'v ExecutionContext" where
  "node_log ctx node status extra =
     (let s = step ctx + 1;
          entry = \<lparr>log_step = s, log_node = node_id node, log_type = node_type node,
                   log_status = status, log_extra = []\<rparr>;
          entry' = (case extra of
                      None \<Rightarrow> entry
                    | Some e \<Rightarrow> if e \<noteq> [] then entry\<lparr>log_extra := e\<rparr> else entry)
      in ctx\<lparr>logs := logs ctx @ [entry'], step := s\<rparr>)"

section \<open>Scheduler\<close>

text \<open>
  The three dictionary comprehensions of \<^verbatim>\<open>topo_sort\<close>. A repeated id keeps the place of
  its first occurrence and the value of its last.
\<close>

definition nodes_by_id_of :: "'v Node list \<Rightarrow> (string \<times> 'v Node) list" where
  "nodes_by_id_of ns = foldl (\<lambda>m n. AList.update (node_id n) n m) [] ns"

definition indeg_init :: "'v Node list \<Rightarrow> (string \<times> int) list" where
  "indeg_init ns = foldl (\<lambda>m n. AList.update (node_id n) 0 m) [] ns"

definition adj_init :: "'v Node list \<Rightarrow> (string \<times> string list) list" where
  "adj_init ns = foldl (\<lambda>m n. AList.update (node_id n) [] m) [] ns"

text \<open>
  The loop over the links: a link with both endpoints among the keys of \<^verbatim>\<open>nodes_by_id\<close>
  appends to \<^verbatim>\<open>adj[from_node]\<close> and increments \<^verbatim>\<open>indeg[to_node]\<close>; any other link
  is skipped. Both subscripts raise \<^verbatim>\<open>KeyError\<close> on a missing key.
\<close>

fun add_links ::
  "(string \<times> 'a) list \<Rightarrow> PortLink list \<Rightarrow> (string \<times> string list) list \<Rightarrow> (string \<times> int) list
     \<Rightarrow> error + ((string \<times> string list) list \<times> (string \<times> int) list)" where
  "add_links nb [] adj indeg = Inr (adj, indeg)"
| "add_links nb (link # ls) adj indeg =
     (if map_of nb (from_node link) \<noteq> None \<and> map_of nb (to_node link) \<noteq> None then
        (case map_of adj (from_node link) of
           None \<Rightarrow> Inl (KeyError (from_node link))
         | Some outs \<Rightarrow>
             (case map_of indeg (to_node link) of
                None \<Rightarrow> Inl (KeyError (to_node link))
              | Some d \<Rightarrow>
                  add_links nb ls
                    (AList.update (from_node link) (outs @ [to_node link]) adj)
                    (AList.update (to_node link) (d + 1) indeg)))
      else add_links nb ls adj indeg)"

text \<open>
  The inner loop \<^verbatim>\<open>for nxt in adj[nid]\<close>: decrement, and enqueue at the back when the
  count reaches zero.
\<close>

fun relax ::
  "string list \<Rightarrow> (string \<times> int) list \<Rightarrow> string list
     \<Rightarrow> error + ((string \<times> int) list \<times> string list)" where
  "relax [] indeg q = Inr (indeg, q)"
| "relax (nxt # rest) indeg q =
     (case map_of indeg nxt of
        None \<Rightarrow> Inl (KeyError nxt)
      | Some d \<Rightarrow>
          relax rest (AList.update nxt (d - 1) indeg) (if d - 1 = 0 then q @ [nxt] else q))"

definition positive_entries :: "(string \<times> int) list \<Rightarrow> nat" where
  "positive_entries indeg = length (filter (\<lambda>kv. 0 < snd kv) indeg)"

lemma positive_entries_update:
  "map_of indeg k = Some d \<Longrightarrow>
   positive_entries (AList.update k (d - 1) indeg) + (if d - 1 = 0 then 1 else 0)
     \<le> positive_entries indeg"
  by (induction indeg) (auto simp: positive_entries_def)

lemma relax_measure:
  "relax nxts indeg q = Inr (indeg', q') \<Longrightarrow>
   length q' + positive_entries indeg' \<le> length q + positive_entries indeg"
proof (induction nxts arbitrary: indeg q)
  case Nil
  then show ?case by simp
next
  case (Cons nxt rest)
  from Cons.prems obtain d where d: "map_of indeg nxt = Some d"
    by (auto split: option.splits)
  with Cons.prems have
    "relax rest (AList.update nxt (d - 1) indeg) (if d - 1 = 0 then q @ [nxt] else q) = Inr (indeg', q')"
    by simp
  from Cons.IH [OF this] positive_entries_update [OF d]
  show ?case by (auto split: if_splits)
qed

text \<open>
  The loop \<^verbatim>\<open>while q\<close>: pop the front, append it to \<^verbatim>\<open>ordered\<close>, relax its
  successors. It terminates from every state: a step removes one element of the queue, and
  the inner loop enqueues only a key whose count has just dropped from one to zero.
\<close>

function kahn_loop ::
  "(string \<times> string list) list \<Rightarrow> (string \<times> int) list \<Rightarrow> string list \<Rightarrow> string list
     \<Rightarrow> error + string list" where
  "kahn_loop adj indeg [] ordered = Inr ordered"
| "kahn_loop adj indeg (nid # q) ordered =
     (case map_of adj nid of
        None \<Rightarrow> Inl (KeyError nid)
      | Some nxts \<Rightarrow>
          (case relax nxts indeg q of
             Inl e \<Rightarrow> Inl e
           | Inr (indeg', q') \<Rightarrow> kahn_loop adj indeg' q' (ordered @ [nid])))"
  by pat_completeness auto
termination
proof (relation "measure (\<lambda>(adj, indeg, q, ordered). length q + positive_entries indeg)")
  show "wf (measure (\<lambda>(adj, indeg, q, ordered). length q + positive_entries indeg))"
    by simp
next
  fix adj :: "(string \<times> string list) list" and indeg nid q and ordered :: "string list"
    and nxts x indeg' q'
  assume "relax nxts indeg q = Inr x" and "(indeg', q') = x"
  then have "relax nxts indeg q = Inr (indeg', q')" by simp
  from relax_measure [OF this]
  show "((adj, indeg', q', ordered @ [nid]), (adj, indeg, nid # q, ordered))
          \<in> measure (\<lambda>(adj, indeg, q, ordered). length q + positive_entries indeg)"
    by simp
qed

text \<open>The final comprehension \<^verbatim>\<open>[nodes_by_id[nid] for nid in ordered]\<close>.\<close>

fun lookup_nodes :: "(string \<times> 'a) list \<Rightarrow> string list \<Rightarrow> error + 'a list" where
  "lookup_nodes nb [] = Inr []"
| "lookup_nodes nb (nid # rest) =
     (case map_of nb nid of
        None \<Rightarrow> Inl (KeyError nid)
      | Some n \<Rightarrow> (case lookup_nodes nb rest of Inl e \<Rightarrow> Inl e | Inr ns \<Rightarrow> Inr (n # ns)))"

text \<open>
  \<open>kahn_order\<close> is \<^verbatim>\<open>topo_sort\<close> up to the end of the \<^verbatim>\<open>while\<close> loop: the list
  \<^verbatim>\<open>ordered\<close> of node ids. \<open>topo_sort\<close> adds the length check and the final lookup.
\<close>

definition kahn_order :: "'v Workflow \<Rightarrow> error + string list" where
  "kahn_order workflow =
     (case add_links (nodes_by_id_of (nodes workflow)) (links workflow)
             (adj_init (nodes workflow)) (indeg_init (nodes workflow)) of
        Inl e \<Rightarrow> Inl e
      | Inr (adj, indeg) \<Rightarrow>
          kahn_loop adj indeg (map fst (filter (\<lambda>kv. snd kv = 0) indeg)) [])"

definition topo_sort :: "'v Workflow \<Rightarrow> error + 'v Node list" where
  "topo_sort workflow =
     (case kahn_order workflow of
        Inl e \<Rightarrow> Inl e
      | Inr ordered \<Rightarrow>
          if length ordered \<noteq> length (nodes workflow) then Inl GraphError
          else lookup_nodes (nodes_by_id_of (nodes workflow)) ordered)"

section \<open>Executor\<close>

text \<open>
  The runners of \<^verbatim>\<open>NODE_RUNNERS\<close> read and write files and encode media, so the engine
  is modelled over any registry, and a runner is a relation between its arguments and what
  it does: it returns a dictionary of outputs (\<open>Inr\<close>) or raises an exception whose
  \<^verbatim>\<open>str(e)\<close> is the message (\<open>Inl\<close>); a runner that blocks is related to nothing. A
  runner reads the context and does not assign to it (the contract of the handlers). The
  executor calls a runner with the dependency map or without it, by the node's type.
\<close>

type_synonym 'v runner =
  "'v Node \<Rightarrow> input_map option \<Rightarrow> 'v ExecutionContext \<Rightarrow> string + (string \<times> 'v) list \<Rightarrow> bool"

type_synonym 'v registry = "string \<Rightarrow> 'v runner option"

definition runner_args :: "string \<Rightarrow> input_map \<Rightarrow> input_map option" where
  "runner_args t im =
     (if t \<in> set [''WriteFile'', ''MergeAudio'', ''VideoClip'', ''ConcatVideo''] then Some im
      else if t \<in> set [''Text'', ''ReadFile''] then None
      else Some im)"

text \<open>
  How a call ends: an exception leaves the function (\<open>Raised\<close>; the second component is
  the context at that moment, which the caller cannot reach), or a value is returned.
\<close>

datatype ('c, 'r) outcome = Raised error 'c | Returned 'r

record 'v RunResult =
  result_ok :: bool
  result_workspace :: string
  result_outputs :: "(string \<times> (string \<times> 'v) list) list"
  result_logs :: "'v LogEntry list"

text \<open>The loop \<^verbatim>\<open>for node in ordered\<close> of \<^verbatim>\<open>execute_workflow\<close>, from a context.\<close>

inductive run_nodes ::
  "'v registry \<Rightarrow> input_map \<Rightarrow> 'v Node list \<Rightarrow> 'v ExecutionContext
     \<Rightarrow> ('v ExecutionContext, 'v ExecutionContext) outcome \<Rightarrow> bool"
  for runners :: "'v registry" and im :: input_map where
  run_done:
    "run_nodes runners im [] ctx (Returned ctx)"
| run_unsupported:
    "runners (node_type node) = None \<Longrightarrow>
     run_nodes runners im (node # rest) ctx
       (Raised (UnsupportedNode (node_type node)) (node_log ctx node ''running'' None))"
| run_error:
    "runners (node_type node) = Some runner \<Longrightarrow>
     ctx_r = node_log ctx node ''running'' None \<Longrightarrow>
     runner node (runner_args (node_type node) im) ctx_r (Inl msg) \<Longrightarrow>
     run_nodes runners im (node # rest) ctx
       (Raised (NodeExecutionError msg)
          (node_log ctx_r node ''error'' (Some [(''error'', ErrorVal msg)])))"
| run_step:
    "runners (node_type node) = Some runner \<Longrightarrow>
     ctx_r = node_log ctx node ''running'' None \<Longrightarrow>
     runner node (runner_args (node_type node) im) ctx_r (Inr out) \<Longrightarrow>
     run_nodes runners im rest
       (node_log (ctx_r\<lparr>outputs := AList.update (node_id node) out (outputs ctx_r)\<rparr>)
          node ''done'' (Some [(''outputs'', OutputsVal out)])) r \<Longrightarrow>
     run_nodes runners im (node # rest) ctx r"

text \<open>
  \<^verbatim>\<open>execute_workflow\<close>: a fresh context, the dependency map, the scheduled order, the
  loop, and the result dictionary. \<open>WORKSPACE\<close> is the path of the module's global.
\<close>

inductive execute_workflow ::
  "'v registry \<Rightarrow> string \<Rightarrow> 'v Workflow \<Rightarrow> ('v ExecutionContext, 'v RunResult) outcome \<Rightarrow> bool"
  for runners :: "'v registry" and WORKSPACE :: string and workflow :: "'v Workflow" where
  exec_graph_error:
    "topo_sort workflow = Inl e \<Longrightarrow>
     execute_workflow runners WORKSPACE workflow (Raised e ExecutionContext_init)"
| exec_raised:
    "topo_sort workflow = Inr ordered \<Longrightarrow>
     run_nodes runners (build_input_map workflow) ordered ExecutionContext_init (Raised e ctx) \<Longrightarrow>
     execute_workflow runners WORKSPACE workflow (Raised e ctx)"
| exec_returned:
    "topo_sort workflow = Inr ordered \<Longrightarrow>
     run_nodes runners (build_input_map workflow) ordered ExecutionContext_init (Returned ctx) \<Longrightarrow>
     execute_workflow runners WORKSPACE workflow
       (Returned \<lparr>result_ok = True, result_workspace = WORKSPACE,
                  result_outputs = outputs ctx, result_logs = logs ctx\<rparr>)"

text \<open>
  \<^verbatim>\<open>run_workflow_api\<close>, what the caller receives: the result dictionary, or the status
  400 with \<^verbatim>\<open>str(e)\<close> as its detail.
\<close>

inductive run_workflow_api ::
  "'v registry \<Rightarrow> string \<Rightarrow> 'v Workflow \<Rightarrow> (nat \<times> string) + 'v RunResult \<Rightarrow> bool"
  for runners :: "'v registry" and WORKSPACE :: string and payload :: "'v Workflow" where
  api_result:
    "execute_workflow runners WORKSPACE payload (Returned result) \<Longrightarrow>
     run_workflow_api runners WORKSPACE payload (Inr result)"
| api_error:
    "execute_workflow runners WORKSPACE payload (Raised e ctx) \<Longrightarrow>
     run_workflow_api runners WORKSPACE payload (Inl (400, error_message e))"

code_pred run_nodes .

code_pred execute_workflow .

code_pred run_workflow_api .

section \<open>Notions the properties are stated with\<close>

text \<open>The binding of an input port in a dependency map, and a captured output value.\<close>

definition lookup_source :: "input_map \<Rightarrow> string \<Rightarrow> string \<Rightarrow> (string \<times> string) option" where
  "lookup_source im nid port = (case map_of im nid of None \<Rightarrow> None | Some d \<Rightarrow> map_of d port)"

definition captured :: "'v ExecutionContext \<Rightarrow> string \<Rightarrow> string \<Rightarrow> 'v option" where
  "captured ctx nid port = (case map_of (outputs ctx) nid of None \<Rightarrow> None | Some d \<Rightarrow> map_of d port)"

definition targets :: "string \<Rightarrow> string \<Rightarrow> PortLink \<Rightarrow> bool" where
  "targets nid port link = (to_node link = nid \<and> to_port link = port)"

text \<open>
  The declared node ids, the links the scheduler keeps (both endpoints declared), the edges
  they stand for, the number of kept links into a node, and the position of an element in a
  list (its first occurrence; the length of the list when it does not occur).
\<close>

definition node_ids :: "'v Workflow \<Rightarrow> string list" where
  "node_ids workflow = map node_id (nodes workflow)"

definition valid_link :: "'v Workflow \<Rightarrow> PortLink \<Rightarrow> bool" where
  "valid_link workflow link =
     (from_node link \<in> set (node_ids workflow) \<and> to_node link \<in> set (node_ids workflow))"

definition valid_edges :: "'v Workflow \<Rightarrow> (string \<times> string) list" where
  "valid_edges workflow =
     map (\<lambda>link. (from_node link, to_node link)) (filter (valid_link workflow) (links workflow))"

definition in_degree :: "'v Workflow \<Rightarrow> string \<Rightarrow> nat" where
  "in_degree workflow v = length (filter (\<lambda>e. snd e = v) (valid_edges workflow))"

fun index_of :: "'a \<Rightarrow> 'a list \<Rightarrow> nat" where
  "index_of x [] = 0"
| "index_of x (y # ys) = (if x = y then 0 else Suc (index_of x ys))"

text \<open>
  For the correctness of the \<^verbatim>\<open>while\<close> loop: the number of edges into \<open>v\<close> from
  nodes not yet in \<open>ordered\<close>, the successor list \<^verbatim>\<open>adj[u]\<close> as the edges give it,
  and the invariant of the loop between two iterations. The invariant says that
  \<open>ordered\<close> and the queue share no element and hold declared ids only, that
  \<^verbatim>\<open>indeg\<close> counts the pending edges, that a node is in \<open>ordered\<close> or queued exactly
  when none is pending, and that every edge into \<open>ordered\<close> comes from an earlier position.
\<close>

definition pending :: "(string \<times> string) list \<Rightarrow> string list \<Rightarrow> string \<Rightarrow> nat" where
  "pending E ordered v = length (filter (\<lambda>e. snd e = v \<and> fst e \<notin> set ordered) E)"

definition successors :: "(string \<times> string) list \<Rightarrow> string \<Rightarrow> string list" where
  "successors E u = map snd (filter (\<lambda>e. fst e = u) E)"

definition kahn_inv ::
  "string set \<Rightarrow> (string \<times> string) list \<Rightarrow> (string \<times> int) list \<Rightarrow> string list \<Rightarrow> string list \<Rightarrow> bool"
  where
  "kahn_inv N E indeg q ordered \<longleftrightarrow>
     distinct (ordered @ q) \<and> set (ordered @ q) \<subseteq> N
     \<and> (\<forall>v\<in>N. map_of indeg v = Some (int (pending E ordered v)))
     \<and> (\<forall>v\<in>N. v \<in> set (ordered @ q) \<longleftrightarrow> pending E ordered v = 0)
     \<and> (\<forall>e\<in>set E. snd e \<in> set ordered \<longrightarrow>
           fst e \<in> set ordered \<and> index_of (fst e) ordered < index_of (snd e) ordered)"

text \<open>
  The schedule of a strict first-in first-out queue over the valid edges \<open>E\<close>, from a
  queue \<open>q\<close> and the nodes \<open>sched\<close> scheduled so far. The front node \<open>u\<close> of the queue
  is appended to the schedule; behind the rest of the queue go the successors of \<open>u\<close>
  that have no edge left from a node outside the schedule and are neither scheduled nor
  queued, in the order in which the links from \<open>u\<close> were declared (a successor with
  several links from \<open>u\<close> at the place of the last one: \<open>remdups\<close> keeps last
  occurrences). The definition follows the description of the queue, not the code:
  \<open>kahn_loop\<close>, with its counters and adjacency lists, is proved below to compute it.
\<close>

definition ready_successors ::
  "(string \<times> string) list \<Rightarrow> string list \<Rightarrow> string list \<Rightarrow> string \<Rightarrow> string list" where
  "ready_successors E sched q u =
     filter (\<lambda>v. pending E sched v = 0 \<and> v \<notin> set sched \<and> v \<notin> set q) (remdups (successors E u))"

lemma ready_successors_measure:
  "length (ready_successors E (sched @ [u]) q u)
     + card (snd ` set E - set (sched @ [u]) - set (q @ ready_successors E (sched @ [u]) q u))
   = card (snd ` set E - set sched - set (u # q))"
proof -
  let ?R = "ready_successors E (sched @ [u]) q u"
  let ?A = "snd ` set E - set sched - set (u # q)"
  have d: "distinct ?R" by (simp add: ready_successors_def)
  have sub: "set ?R \<subseteq> ?A"
    by (auto simp: ready_successors_def successors_def)
  have eq: "snd ` set E - set (sched @ [u]) - set (q @ ?R) = ?A - set ?R" by auto
  have "card (?A - set ?R) = card ?A - card (set ?R)"
    by (rule card_Diff_subset) (simp, rule sub)
  moreover have "card (set ?R) \<le> card ?A" by (rule card_mono) (simp, rule sub)
  moreover have "card (set ?R) = length ?R" by (rule distinct_card [OF d])
  ultimately show ?thesis unfolding eq by simp
qed

function fifo_schedule ::
  "(string \<times> string) list \<Rightarrow> string list \<Rightarrow> string list \<Rightarrow> string list" where
  "fifo_schedule E [] sched = sched"
| "fifo_schedule E (u # q) sched =
     fifo_schedule E (q @ ready_successors E (sched @ [u]) q u) (sched @ [u])"
  by pat_completeness auto
termination
proof (relation "measure (\<lambda>(E, q, sched). length q + card (snd ` set E - set sched - set q))")
  show "wf (measure (\<lambda>(E, q, sched). length q + card (snd ` set E - set sched - set q)))"
    by simp
next
  fix E :: "(string \<times> string) list" and u q sched
  from ready_successors_measure [of E "sched" u q]
  show "((E, q @ ready_successors E (sched @ [u]) q u, sched @ [u]), (E, u # q, sched))
          \<in> measure (\<lambda>(E, q, sched). length q + card (snd ` set E - set sched - set q))"
    by simp
qed

text \<open>Concrete graphs and contexts on which the theorems are exercised.\<close>

definition mk_node :: "string \<Rightarrow> string \<Rightarrow> string Node" where
  "mk_node i t = \<lparr>node_id = i, node_type = t, position = [], data = []\<rparr>"

definition mk_link :: "string \<Rightarrow> string \<Rightarrow> string \<Rightarrow> string \<Rightarrow> PortLink" where
  "mk_link a ap b bp = \<lparr>from_node = a, from_port = ap, to_node = b, to_port = bp\<rparr>"

definition fanin_wf :: "string Workflow" where
  "fanin_wf =
     \<lparr>nodes = [mk_node ''T1'' ''Text'', mk_node ''T2'' ''Text'', mk_node ''W'' ''WriteFile''],
      links = [mk_link ''T1'' ''text'' ''W'' ''text'', mk_link ''T2'' ''text'' ''W'' ''text'']\<rparr>"

definition fanin_ctx :: "string ExecutionContext" where
  "fanin_ctx =
     \<lparr>outputs = [(''T1'', [(''text'', ''hello'')]), (''T2'', [(''text'', ''world'')])],
      logs = [], step = 0\<rparr>"

definition dangling_wf :: "string Workflow" where
  "dangling_wf =
     \<lparr>nodes = [mk_node ''A'' ''Text'', mk_node ''B'' ''WriteFile''],
      links = [mk_link ''ghost'' ''text'' ''B'' ''text'', mk_link ''A'' ''text'' ''B'' ''aux'']\<rparr>"

definition chain_wf :: "string Workflow" where
  "chain_wf =
     \<lparr>nodes = [mk_node ''W'' ''WriteFile'', mk_node ''M'' ''MergeAudio'', mk_node ''T'' ''Text''],
      links = [mk_link ''M'' ''audio'' ''W'' ''text'', mk_link ''T'' ''text'' ''M'' ''a'',
               mk_link ''ghost'' ''x'' ''T'' ''y'']\<rparr>"

definition tie_wf :: "string Workflow" where
  "tie_wf =
     \<lparr>nodes = [mk_node ''A'' ''Text'', mk_node ''B'' ''Text'', mk_node ''C'' ''Text''],
      links = [mk_link ''A'' ''text'' ''C'' ''x'', mk_link ''A'' ''text'' ''B'' ''x'']\<rparr>"

definition branches_wf :: "string Workflow" where
  "branches_wf =
     \<lparr>nodes = [mk_node ''P'' ''Text'', mk_node ''Q'' ''Text'', mk_node ''R'' ''WriteFile''],
      links = [mk_link ''Q'' ''text'' ''R'' ''text'']\<rparr>"

text \<open>
  A runner is deterministic when equal arguments give one result; a registry is, when each
  of its runners is.
\<close>

definition deterministic_runner :: "'v runner \<Rightarrow> bool" where
  "deterministic_runner h \<longleftrightarrow> (\<forall>n im ctx a b. h n im ctx a \<longrightarrow> h n im ctx b \<longrightarrow> a = b)"

definition deterministic_registry :: "'v registry \<Rightarrow> bool" where
  "deterministic_registry runners \<longleftrightarrow> (\<forall>t h. runners t = Some h \<longrightarrow> deterministic_runner h)"

text \<open>
  \<^verbatim>\<open>run_node_text\<close>, the one runner of \<^verbatim>\<open>NODE_RUNNERS\<close> that touches neither files nor
  the media library, on string values: it takes \<^verbatim>\<open>(node, ctx)\<close> and returns the
  configured text.
\<close>

definition run_node_text :: "string runner" where
  "run_node_text node im ctx r \<longleftrightarrow>
     im = None
     \<and> r = Inr [(''text'', case map_of (data node) ''text'' of None \<Rightarrow> '''' | Some t \<Rightarrow> t)]"

text \<open>
  Registries for the concrete runs. \<open>sample_runners\<close> has \<^verbatim>\<open>run_node_text\<close> under its
  type and, under the type \<open>Fail\<close>, a runner that raises with a fixed message whatever its
  arguments are; no other type has a runner.
\<close>

definition failing_runner :: "string runner" where
  "failing_runner node im ctx r \<longleftrightarrow> r = Inl ''handler failed''"

definition sample_runners :: "string registry" where
  "sample_runners = [''Text'' \<mapsto> run_node_text, ''Fail'' \<mapsto> failing_runner]"

text \<open>A registry whose runners never return: no call of a runner has an outcome.\<close>

definition blocked_runners :: "string registry" where
  "blocked_runners t = Some (\<lambda>node im ctx r. False)"

definition cycle_wf :: "string Workflow" where
  "cycle_wf =
     \<lparr>nodes = [mk_node ''A'' ''Text'', mk_node ''B'' ''Text''],
      links = [mk_link ''A'' ''text'' ''B'' ''x'', mk_link ''B'' ''text'' ''A'' ''x'']\<rparr>"

definition dup_wf :: "string Workflow" where
  "dup_wf = \<lparr>nodes = [mk_node ''A'' ''Text'', mk_node ''A'' ''WriteFile''], links = []\<rparr>"

definition pair_wf :: "string Workflow" where
  "pair_wf =
     \<lparr>nodes = [mk_node ''B'' ''Text'',
               \<lparr>node_id = ''A'', node_type = ''Text'', position = [], data = [(''text'', ''hello'')]\<rparr>],
      links = [mk_link ''A'' ''text'' ''B'' ''in'']\<rparr>"

text \<open>
  The context an outcome carries, the log entries \<open>node_log\<close> appends for a node that
  starts and for a node whose runner raised, the context after both, and the numbering of
  a log: the counter equals the number of entries, and the entries are numbered 1, 2, ...
\<close>

fun final_context :: "('v ExecutionContext, 'v ExecutionContext) outcome \<Rightarrow> 'v ExecutionContext" where
  "final_context (Raised e ctx) = ctx"
| "final_context (Returned ctx) = ctx"

definition running_entry :: "'v ExecutionContext \<Rightarrow> 'v Node \<Rightarrow> 'v LogEntry" where
  "running_entry ctx node =
     \<lparr>log_step = step ctx + 1, log_node = node_id node, log_type = node_type node,
      log_status = ''running'', log_extra = []\<rparr>"

definition error_entry :: "'v ExecutionContext \<Rightarrow> 'v Node \<Rightarrow> string \<Rightarrow> 'v LogEntry" where
  "error_entry ctx node msg =
     \<lparr>log_step = step ctx + 2, log_node = node_id node, log_type = node_type node,
      log_status = ''error'', log_extra = [(''error'', ErrorVal msg)]\<rparr>"

definition error_context :: "'v ExecutionContext \<Rightarrow> 'v Node \<Rightarrow> string \<Rightarrow> 'v ExecutionContext" where
  "error_context ctx node msg =
     node_log (node_log ctx node ''running'' None) node ''error'' (Some [(''error'', ErrorVal msg)])"

definition well_numbered :: "'v ExecutionContext \<Rightarrow> bool" where
  "well_numbered ctx \<longleftrightarrow>
     step ctx = int (length (logs ctx))
     \<and> map log_step (logs ctx) = map int [1..<Suc (length (logs ctx))]"

definition text_node :: "string \<Rightarrow> string \<Rightarrow> string Node" where
  "text_node i t = \<lparr>node_id = i, node_type = ''Text'', position = [], data = [(''text'', t)]\<rparr>"

definition bogus_wf :: "string Workflow" where
  "bogus_wf =
     \<lparr>nodes = [text_node ''T'' ''hi'', mk_node ''X'' ''Bogus'', mk_node ''U'' ''Text''],
      links = [mk_link ''T'' ''text'' ''X'' ''in'', mk_link ''X'' ''out'' ''U'' ''in'']\<rparr>"

definition fail_wf :: "string Workflow" where
  "fail_wf =
     \<lparr>nodes = [text_node ''T'' ''hi'', mk_node ''F'' ''Fail'', mk_node ''U'' ''Text''],
      links = [mk_link ''T'' ''text'' ''F'' ''in'', mk_link ''F'' ''out'' ''U'' ''in'']\<rparr>"

definition after_T :: "string ExecutionContext" where
  "after_T =
     \<lparr>outputs = [(''T'', [(''text'', ''hi'')])],
      logs = [\<lparr>log_step = 1, log_node = ''T'', log_type = ''Text'', log_status = ''running'',
                log_extra = []\<rparr>,
              \<lparr>log_step = 2, log_node = ''T'', log_type = ''Text'', log_status = ''done'',
                log_extra = [(''outputs'', OutputsVal [(''text'', ''hi'')])]\<rparr>],
      step = 2\<rparr>"

text \<open>
  What \<^verbatim>\<open>execute_workflow\<close> makes of the outcome of its loop, what \<^verbatim>\<open>run_workflow_api\<close>
  makes of an outcome, and the outcome of a run of \<open>pair_wf\<close>.
\<close>

definition result_of ::
  "string \<Rightarrow> ('v ExecutionContext, 'v ExecutionContext) outcome
     \<Rightarrow> ('v ExecutionContext, 'v RunResult) outcome" where
  "result_of ws oc =
     (case oc of
        Raised e ctx \<Rightarrow> Raised e ctx
      | Returned ctx \<Rightarrow>
          Returned \<lparr>result_ok = True, result_workspace = ws,
                    result_outputs = outputs ctx, result_logs = logs ctx\<rparr>)"

definition response_of :: "('v ExecutionContext, 'v RunResult) outcome \<Rightarrow> (nat \<times> string) + 'v RunResult" where
  "response_of r = (case r of Raised e ctx \<Rightarrow> Inl (400, error_message e) | Returned res \<Rightarrow> Inr res)"

definition pair_result :: "(string ExecutionContext, string RunResult) outcome" where
  "pair_result =
     Returned
       \<lparr>result_ok = True, result_workspace = ''WORKSPACE'',
        result_outputs = [(''A'', [(''text'', ''hello'')]), (''B'', [(''text'', '''')])],
        result_logs =
          [\<lparr>log_step = 1, log_node = ''A'', log_type = ''Text'', log_status = ''running'',
             log_extra = []\<rparr>,
           \<lparr>log_step = 2, log_node = ''A'', log_type = ''Text'', log_status = ''done'',
             log_extra = [(''outputs'', OutputsVal [(''text'', ''hello'')])]\<rparr>,
           \<lparr>log_step = 3, log_node = ''B'', log_type = ''Text'', log_status = ''running'',
             log_extra = []\<rparr>,
           \<lparr>log_step = 4, log_node = ''B'', log_type = ''Text'', log_status = ''done'',
             log_extra = [(''outputs'', OutputsVal [(''text'', '''')])]\<rparr>]\<rparr>"

section \<open>The dependency map\<close>

lemma lookup_source_bind_link:
  "lookup_source (bind_link m l) n p =
     (if targets n p l then Some (from_node l, from_port l) else lookup_source m n p)"
  by (auto simp: lookup_source_def bind_link_def setdefault_def targets_def Let_def update_conv'
           split: option.splits)

lemma lookup_source_foldl:
  "lookup_source (foldl bind_link m ls) n p =
     (case filter (targets n p) ls of
        [] \<Rightarrow> lookup_source m n p
      | x # xs \<Rightarrow> Some (from_node (last (x # xs)), from_port (last (x # xs))))"
proof (induction ls arbitrary: m)
  case Nil
  then show ?case by simp
next
  case (Cons l ls)
  show ?case
    by (simp add: Cons.IH lookup_source_bind_link split: list.splits)
qed

lemma resolve_input_eq:
  "resolve_input nid port im ctx =
     (case lookup_source im nid port of
        None \<Rightarrow> None
      | Some src \<Rightarrow> captured ctx (fst src) (snd src))"
  by (simp add: resolve_input_def lookup_source_def captured_def split: option.splits)

text \<open>
  C4. When one or more links target the input port \<open>(nid, port)\<close>, the dependency map
  binds that port to the source of the last of them in declaration order, whatever the
  earlier ones were, and \<open>resolve_input\<close> returns the value captured for that source.
\<close>

theorem build_input_map_last_wins:
  assumes "filter (targets nid port) (links workflow) = x # xs"
  shows "lookup_source (build_input_map workflow) nid port
           = Some (from_node (last (x # xs)), from_port (last (x # xs)))
         \<and> resolve_input nid port (build_input_map workflow) ctx
           = captured ctx (from_node (last (x # xs))) (from_port (last (x # xs)))"
proof -
  have "lookup_source (build_input_map workflow) nid port
          = Some (from_node (last (x # xs)), from_port (last (x # xs)))"
    unfolding build_input_map_def lookup_source_foldl using assms by simp
  then show ?thesis by (simp add: resolve_input_eq)
qed

theorem build_input_map_last_wins_witness:
  "filter (targets ''W'' ''text'') (links fanin_wf)
     = [mk_link ''T1'' ''text'' ''W'' ''text'', mk_link ''T2'' ''text'' ''W'' ''text'']
   \<and> lookup_source (build_input_map fanin_wf) ''W'' ''text'' = Some (''T2'', ''text'')
   \<and> resolve_input ''W'' ''text'' (build_input_map fanin_wf) fanin_ctx = Some ''world''"
proof -
  have h: "filter (targets ''W'' ''text'') (links fanin_wf)
             = mk_link ''T1'' ''text'' ''W'' ''text'' # [mk_link ''T2'' ''text'' ''W'' ''text'']"
    by (simp add: fanin_wf_def targets_def mk_link_def)
  from build_input_map_last_wins [OF h, of fanin_ctx] h
  show ?thesis by (simp add: mk_link_def captured_def fanin_ctx_def)
qed

text \<open>
  C5. \<open>resolve_input\<close> is a total function with no failure branch. It returns a value
  exactly when the port is bound, the producer has captured outputs and these hold the bound
  port; it returns absent when the port is unbound, when the producer has no captured
  outputs (as for a producer id that no node has), or when its outputs lack the port.
\<close>

theorem resolve_input_total:
  "(resolve_input nid port im ctx = Some v \<longleftrightarrow>
      (\<exists>fn fp outs. lookup_source im nid port = Some (fn, fp)
         \<and> map_of (outputs ctx) fn = Some outs \<and> map_of outs fp = Some v))
   \<and> (resolve_input nid port im ctx = None \<longleftrightarrow>
        lookup_source im nid port = None
        \<or> (\<exists>fn fp. lookup_source im nid port = Some (fn, fp)
              \<and> (map_of (outputs ctx) fn = None
                  \<or> (\<exists>outs. map_of (outputs ctx) fn = Some outs \<and> map_of outs fp = None))))"
  by (auto simp: resolve_input_eq captured_def split: option.splits)

theorem resolve_input_total_witness:
  "resolve_input ''B'' ''text'' (build_input_map dangling_wf) fanin_ctx = None
   \<and> lookup_source (build_input_map dangling_wf) ''B'' ''text'' = Some (''ghost'', ''text'')
   \<and> map_of (outputs fanin_ctx) ''ghost'' = None
   \<and> resolve_input ''B'' ''nothing'' (build_input_map dangling_wf) fanin_ctx = None
   \<and> lookup_source (build_input_map dangling_wf) ''B'' ''nothing'' = None"
proof -
  have a: "lookup_source (build_input_map dangling_wf) ''B'' ''text'' = Some (''ghost'', ''text'')"
    unfolding build_input_map_def lookup_source_foldl
    by (simp add: dangling_wf_def targets_def mk_link_def)
  have b: "lookup_source (build_input_map dangling_wf) ''B'' ''nothing'' = None"
    unfolding build_input_map_def lookup_source_foldl
    by (simp add: dangling_wf_def targets_def mk_link_def lookup_source_def)
  have c: "map_of (outputs fanin_ctx) ''ghost'' = None"
    by (simp add: fanin_ctx_def)
  from resolve_input_total [of "''B''" "''text''" "build_input_map dangling_wf" fanin_ctx]
       resolve_input_total [of "''B''" "''nothing''" "build_input_map dangling_wf" fanin_ctx]
       a b c
  show ?thesis by simp
qed

section \<open>The scheduler\<close>

subsection \<open>The dictionary comprehensions\<close>


lemma map_of_foldl_update:
  "map_of (foldl (\<lambda>m n. AList.update (f n) (g n) m) m0 ns) k =
     (case filter (\<lambda>n. f n = k) ns of
        [] \<Rightarrow> map_of m0 k
      | x # xs \<Rightarrow> Some (g (last (x # xs))))"
proof (induction ns arbitrary: m0)
  case Nil
  then show ?case by simp
next
  case (Cons n ns)
  show ?case by (simp add: Cons.IH update_conv' split: list.splits)
qed

lemma distinct_foldl_update:
  "distinct (map fst m0) \<Longrightarrow> distinct (map fst (foldl (\<lambda>m n. AList.update (f n) (g n) m) m0 ns))"
  by (induction ns arbitrary: m0) (simp_all add: distinct_update)

lemma keys_foldl_update:
  "fst ` set (foldl (\<lambda>m n. AList.update (f n) (g n) m) m0 ns) = fst ` set m0 \<union> f ` set ns"
  by (induction ns arbitrary: m0) (auto simp: dom_update)

lemma update_fresh: "k \<notin> fst ` set al \<Longrightarrow> AList.update k v al = al @ [(k, v)]"
  by (induction al) auto

lemma foldl_update_distinct:
  "distinct (map fst m0 @ map f ns) \<Longrightarrow>
   foldl (\<lambda>m n. AList.update (f n) (g n) m) m0 ns = m0 @ map (\<lambda>n. (f n, g n)) ns"
proof (induction ns arbitrary: m0)
  case Nil
  then show ?case by simp
next
  case (Cons n ns)
  from Cons.prems have fresh: "f n \<notin> fst ` set m0" by auto
  from Cons.prems have "distinct (map fst (m0 @ [(f n, g n)]) @ map f ns)" by auto
  from Cons.IH [OF this] show ?case by (simp add: update_fresh [OF fresh])
qed

lemma map_of_const_dict:
  "map_of (foldl (\<lambda>m n. AList.update (f n) c m) [] ns) k = (if k \<in> f ` set ns then Some c else None)"
proof -
  have "filter (\<lambda>n. f n = k) ns = [] \<longleftrightarrow> k \<notin> f ` set ns"
    by (auto simp: filter_empty_conv)
  then show ?thesis
    by (auto simp: map_of_foldl_update split: list.splits)
qed

lemma nodes_by_id_in: "map_of (nodes_by_id_of ns) k \<noteq> None \<longleftrightarrow> k \<in> node_id ` set ns"
proof -
  have "filter (\<lambda>n. node_id n = k) ns = [] \<longleftrightarrow> k \<notin> node_id ` set ns"
    by (auto simp: filter_empty_conv)
  then show ?thesis
    unfolding nodes_by_id_of_def map_of_foldl_update by (auto split: list.splits)
qed

lemma nodes_by_id_Some:
  assumes "map_of (nodes_by_id_of ns) k = Some n"
  shows "n \<in> set ns \<and> node_id n = k"
proof -
  from assms obtain x xs where f: "filter (\<lambda>n. node_id n = k) ns = x # xs" and n: "n = last (x # xs)"
    unfolding nodes_by_id_of_def map_of_foldl_update by (auto split: list.splits)
  have "last (x # xs) \<in> set (x # xs)" by (rule last_in_set) simp
  with f n have "n \<in> set (filter (\<lambda>n. node_id n = k) ns)" by simp
  then show ?thesis by simp
qed

lemma nodes_by_id_distinct:
  assumes "distinct (map node_id ns)" and "n \<in> set ns"
  shows "map_of (nodes_by_id_of ns) (node_id n) = Some n"
proof -
  have "nodes_by_id_of ns = map (\<lambda>n. (node_id n, n)) ns"
    unfolding nodes_by_id_of_def using foldl_update_distinct [of "[]" node_id ns "\<lambda>n. n"] assms(1)
    by simp
  moreover have "map_of (map (\<lambda>n. (node_id n, n)) ns) (node_id n) = Some n"
    using assms by (induction ns) (auto simp: image_iff)
  ultimately show ?thesis by simp
qed

lemma indeg_init_map_of:
  "map_of (indeg_init ns) k = (if k \<in> node_id ` set ns then Some 0 else None)"
  unfolding indeg_init_def by (rule map_of_const_dict)

lemma adj_init_map_of:
  "map_of (adj_init ns) k = (if k \<in> node_id ` set ns then Some [] else None)"
  unfolding adj_init_def by (rule map_of_const_dict)

lemma indeg_init_keys_distinct: "distinct (map fst (indeg_init ns))"
  unfolding indeg_init_def by (rule distinct_foldl_update) simp

lemma indeg_init_keys_set: "fst ` set (indeg_init ns) = node_id ` set ns"
  unfolding indeg_init_def by (simp add: keys_foldl_update)

lemma indeg_init_keys:
  "distinct (map node_id ns) \<Longrightarrow> map fst (indeg_init ns) = map node_id ns"
  unfolding indeg_init_def using foldl_update_distinct [of "[]" node_id ns "\<lambda>n. 0::int"]
  by (simp add: comp_def)

subsection \<open>The loop over the links\<close>

lemma update_present_keys: "map_of al k = Some d \<Longrightarrow> map fst (AList.update k v al) = map fst al"
  by (induction al) (auto split: if_splits)

lemma add_links_spec:
  assumes "\<forall>k. map_of nb k \<noteq> None \<longleftrightarrow> k \<in> N"
      and "\<forall>k\<in>N. map_of adj k \<noteq> None"
      and "\<forall>k\<in>N. map_of indeg k \<noteq> None"
  shows "\<exists>adj' indeg'.
           add_links nb ls adj indeg = Inr (adj', indeg')
         \<and> map fst indeg' = map fst indeg
         \<and> (\<forall>k. map_of adj' k =
               map_option (\<lambda>outs. outs @ map to_node
                  (filter (\<lambda>l. from_node l = k \<and> from_node l \<in> N \<and> to_node l \<in> N) ls)) (map_of adj k))
         \<and> (\<forall>k. map_of indeg' k =
               map_option (\<lambda>d. d + int (length
                  (filter (\<lambda>l. to_node l = k \<and> from_node l \<in> N \<and> to_node l \<in> N) ls))) (map_of indeg k))"
  using assms
proof (induction ls arbitrary: adj indeg)
  case Nil
  then show ?case by (simp add: option.map_ident)
next
  case (Cons l ls)
  show ?case
  proof (cases "from_node l \<in> N \<and> to_node l \<in> N")
    case False
    with Cons.prems(1) have skip: "add_links nb (l # ls) adj indeg = add_links nb ls adj indeg"
      by auto
    from Cons.IH [OF Cons.prems] False show ?thesis
      unfolding skip by (auto cong: conj_cong)
  next
    case True
    from True Cons.prems(2) have "map_of adj (from_node l) \<noteq> None" by blast
    then obtain outs where o: "map_of adj (from_node l) = Some outs" by auto
    from True Cons.prems(3) have "map_of indeg (to_node l) \<noteq> None" by blast
    then obtain d where d: "map_of indeg (to_node l) = Some d" by auto
    let ?adj = "AList.update (from_node l) (outs @ [to_node l]) adj"
    let ?indeg = "AList.update (to_node l) (d + 1) indeg"
    from True Cons.prems(1) o d
    have step: "add_links nb (l # ls) adj indeg = add_links nb ls ?adj ?indeg" by auto
    have p2: "\<forall>k\<in>N. map_of ?adj k \<noteq> None" using Cons.prems(2) by (simp add: update_conv')
    have p3: "\<forall>k\<in>N. map_of ?indeg k \<noteq> None" using Cons.prems(3) by (simp add: update_conv')
    from Cons.IH [OF Cons.prems(1) p2 p3] obtain adj' indeg' where
      r: "add_links nb ls ?adj ?indeg = Inr (adj', indeg')"
      and k: "map fst indeg' = map fst ?indeg"
      and a: "\<forall>k. map_of adj' k =
               map_option (\<lambda>outs. outs @ map to_node
                  (filter (\<lambda>l. from_node l = k \<and> from_node l \<in> N \<and> to_node l \<in> N) ls)) (map_of ?adj k)"
      and i: "\<forall>k. map_of indeg' k =
               map_option (\<lambda>d. d + int (length
                  (filter (\<lambda>l. to_node l = k \<and> from_node l \<in> N \<and> to_node l \<in> N) ls))) (map_of ?indeg k)"
      by blast
    have k': "map fst indeg' = map fst indeg" using k update_present_keys [OF d] by simp
    have a': "\<forall>k. map_of adj' k =
               map_option (\<lambda>outs. outs @ map to_node
                  (filter (\<lambda>l. from_node l = k \<and> from_node l \<in> N \<and> to_node l \<in> N) (l # ls))) (map_of adj k)"
      using a o True by (auto simp: update_conv')
    have i': "\<forall>k. map_of indeg' k =
               map_option (\<lambda>d. d + int (length
                  (filter (\<lambda>l. to_node l = k \<and> from_node l \<in> N \<and> to_node l \<in> N) (l # ls)))) (map_of indeg k)"
      using i d True by (auto simp: update_conv')
    from r k' a' i' show ?thesis unfolding step by blast
  qed
qed

subsection \<open>The inner loop\<close>

lemma relax_spec:
  assumes "\<forall>v\<in>set outs. \<exists>d. map_of indeg v = Some d \<and> int (count_list outs v) \<le> d"
  shows "\<exists>indeg' news.
           relax outs indeg q = Inr (indeg', q @ news)
         \<and> (\<forall>k. map_of indeg' k = map_option (\<lambda>d. d - int (count_list outs k)) (map_of indeg k))
         \<and> distinct news
         \<and> set news = {v \<in> set outs. map_of indeg v = Some (int (count_list outs v))}"
  using assms
proof (induction outs arbitrary: indeg q)
  case Nil
  then show ?case by (simp add: option.map_ident)
next
  case (Cons x rest)
  from Cons.prems obtain d where d: "map_of indeg x = Some d"
    and dge: "int (count_list rest x) + 1 \<le> d" by auto
  let ?indeg = "AList.update x (d - 1) indeg"
  let ?hd = "if d - 1 = 0 then [x] else []"
  have step: "relax (x # rest) indeg q = relax rest ?indeg (q @ ?hd)"
    using d by simp
  have pre: "\<forall>v\<in>set rest. \<exists>e. map_of ?indeg v = Some e \<and> int (count_list rest v) \<le> e"
  proof
    fix v assume v: "v \<in> set rest"
    show "\<exists>e. map_of ?indeg v = Some e \<and> int (count_list rest v) \<le> e"
    proof (cases "v = x")
      case True
      then show ?thesis using dge by (simp add: update_conv')
    next
      case False
      from Cons.prems v obtain e where "map_of indeg v = Some e" "int (count_list (x # rest) v) \<le> e"
        by auto
      with False show ?thesis by (simp add: update_conv')
    qed
  qed
  from Cons.IH [OF pre, of "q @ ?hd"] obtain indeg' news where
    r: "relax rest ?indeg (q @ ?hd) = Inr (indeg', (q @ ?hd) @ news)"
    and m: "\<forall>k. map_of indeg' k = map_option (\<lambda>d. d - int (count_list rest k)) (map_of ?indeg k)"
    and dn: "distinct news"
    and sn: "set news = {v \<in> set rest. map_of ?indeg v = Some (int (count_list rest v))}"
    by blast
  have m': "\<forall>k. map_of indeg' k = map_option (\<lambda>d. d - int (count_list (x # rest) k)) (map_of indeg k)"
    using m d by (auto simp: update_conv')
  have xrest: "d - 1 = 0 \<Longrightarrow> x \<notin> set rest"
    using dge count_list_0_iff [of rest x] by auto
  have d': "distinct (?hd @ news)"
    using dn sn xrest by auto
  have s': "set (?hd @ news) = {v \<in> set (x # rest). map_of indeg v = Some (int (count_list (x # rest) v))}"
  proof (rule set_eqI)
    fix v
    show "v \<in> set (?hd @ news)
            \<longleftrightarrow> v \<in> {v \<in> set (x # rest). map_of indeg v = Some (int (count_list (x # rest) v))}"
    proof (cases "v = x")
      case True
      have c: "x \<in> set rest \<longleftrightarrow> count_list rest x \<noteq> 0"
        using count_list_0_iff [of rest x] by simp
      have n: "x \<in> set news \<longleftrightarrow> x \<in> set rest \<and> d - 1 = int (count_list rest x)"
        using sn by (simp add: update_conv')
      have h: "x \<in> set ?hd \<longleftrightarrow> d = 1" by simp
      have e: "(d = 1 \<or> (x \<in> set rest \<and> d - 1 = int (count_list rest x)))
                 \<longleftrightarrow> d = int (count_list rest x) + 1"
        using dge c by (cases "count_list rest x = 0") auto
      have "x \<in> set (?hd @ news) \<longleftrightarrow> d = int (count_list rest x) + 1"
        unfolding set_append Un_iff h n by (rule e)
      moreover have "x \<in> {v \<in> set (x # rest). map_of indeg v = Some (int (count_list (x # rest) v))}
                 \<longleftrightarrow> d = int (count_list rest x) + 1"
        using d by auto
      ultimately show ?thesis using True by simp
    next
      case False
      then show ?thesis using sn by (auto simp: update_conv')
    qed
  qed
  from r m' d' s' show ?case unfolding step by (intro exI [of _ indeg'] exI [of _ "?hd @ news"]) simp
qed

lemma relax_spec_order:
  assumes "\<forall>v\<in>set outs. \<exists>d. map_of indeg v = Some d \<and> int (count_list outs v) \<le> d"
  shows "\<exists>indeg'. relax outs indeg q
           = Inr (indeg', q @ filter (\<lambda>v. map_of indeg v = Some (int (count_list outs v)))
                              (remdups outs))"
  using assms
proof (induction outs arbitrary: indeg q)
  case Nil
  then show ?case by simp
next
  case (Cons x rest)
  from Cons.prems obtain d where d: "map_of indeg x = Some d"
    and dge: "int (count_list rest x) + 1 \<le> d" by auto
  let ?indeg = "AList.update x (d - 1) indeg"
  let ?hd = "if d - 1 = 0 then [x] else []"
  let ?P1 = "\<lambda>v. map_of ?indeg v = Some (int (count_list rest v))"
  let ?P2 = "\<lambda>v. map_of indeg v = Some (int (count_list (x # rest) v))"
  have step: "relax (x # rest) indeg q = relax rest ?indeg (q @ ?hd)"
    using d by simp
  have pre: "\<forall>v\<in>set rest. \<exists>e. map_of ?indeg v = Some e \<and> int (count_list rest v) \<le> e"
  proof
    fix v assume v: "v \<in> set rest"
    show "\<exists>e. map_of ?indeg v = Some e \<and> int (count_list rest v) \<le> e"
    proof (cases "v = x")
      case True
      then show ?thesis using dge by (simp add: update_conv')
    next
      case False
      from Cons.prems v obtain e where "map_of indeg v = Some e" "int (count_list (x # rest) v) \<le> e"
        by auto
      with False show ?thesis by (simp add: update_conv')
    qed
  qed
  from Cons.IH [OF pre, of "q @ ?hd"] obtain indeg' where
    r: "relax rest ?indeg (q @ ?hd) = Inr (indeg', (q @ ?hd) @ filter ?P1 (remdups rest))"
    by blast
  have P: "?P1 v = ?P2 v" for v
  proof (cases "v = x")
    case True
    have "(d - 1 = int (count_list rest x)) = (d = 1 + int (count_list rest x))" by arith
    with True d show ?thesis by (simp add: update_conv')
  next
    case False
    then show ?thesis by (simp add: update_conv')
  qed
  have P2x: "?P2 x \<longleftrightarrow> d = int (count_list rest x) + 1" using d by auto
  have "?hd @ filter ?P1 (remdups rest) = filter ?P2 (remdups (x # rest))"
  proof (cases "x \<in> set rest")
    case True
    then have "count_list rest x \<noteq> 0" by (simp add: count_list_0_iff)
    with dge have "d - 1 \<noteq> 0" by simp
    with True show ?thesis by (simp add: P)
  next
    case False
    then have "count_list rest x = 0" by (simp add: count_list_0_iff)
    with P2x have "?P2 x \<longleftrightarrow> d - 1 = 0" by auto
    with False show ?thesis by (simp add: P)
  qed
  with r show ?case unfolding step by (intro exI [of _ indeg']) simp
qed

subsection \<open>The invariant of the queue loop\<close>

lemma index_of_append_in: "x \<in> set xs \<Longrightarrow> index_of x (xs @ ys) = index_of x xs"
  by (induction xs) auto

lemma index_of_append_notin: "x \<notin> set xs \<Longrightarrow> index_of x (xs @ ys) = length xs + index_of x ys"
  by (induction xs) auto

lemma index_of_less: "x \<in> set xs \<Longrightarrow> index_of x xs < length xs"
  by (induction xs) auto

lemma nth_index_of: "x \<in> set xs \<Longrightarrow> xs ! index_of x xs = x"
  by (induction xs) auto

lemma index_of_nth: "distinct xs \<Longrightarrow> i < length xs \<Longrightarrow> index_of (xs ! i) xs = i"
proof (induction xs arbitrary: i)
  case Nil
  then show ?case by simp
next
  case (Cons a xs)
  then show ?case by (cases i) auto
qed

lemma pending_zero:
  "pending E ordered v = 0 \<longleftrightarrow> (\<forall>e\<in>set E. snd e = v \<longrightarrow> fst e \<in> set ordered)"
  by (auto simp: pending_def filter_empty_conv)

lemma count_successors:
  "count_list (successors E u) v = length (filter (\<lambda>e. snd e = v \<and> fst e = u) E)"
  by (induction E) (auto simp: successors_def)

lemma pending_split:
  "u \<notin> set ordered \<Longrightarrow>
   pending E ordered v = pending E (ordered @ [u]) v + count_list (successors E u) v"
  unfolding count_successors pending_def by (induction E) auto

lemma successors_in:
  "set E \<subseteq> N \<times> N \<Longrightarrow> set (successors E u) \<subseteq> N"
  by (auto simp: successors_def)

lemma kahn_step:
  assumes E: "set E \<subseteq> N \<times> N"
      and inv: "kahn_inv N E indeg (nid # q) ordered"
  shows "\<exists>indeg' news.
           relax (successors E nid) indeg q = Inr (indeg', q @ news)
         \<and> kahn_inv N E indeg' (q @ news) (ordered @ [nid])"
proof -
  let ?S = "successors E nid"
  let ?o = "ordered @ [nid]"
  from inv have dist: "distinct (ordered @ nid # q)"
    and sub: "set (ordered @ nid # q) \<subseteq> N"
    and deg: "\<forall>v\<in>N. map_of indeg v = Some (int (pending E ordered v))"
    and rdy: "\<forall>v\<in>N. v \<in> set (ordered @ nid # q) \<longleftrightarrow> pending E ordered v = 0"
    and edg: "\<forall>e\<in>set E. snd e \<in> set ordered \<longrightarrow>
           fst e \<in> set ordered \<and> index_of (fst e) ordered < index_of (snd e) ordered"
    unfolding kahn_inv_def by blast+
  from dist have nid_new: "nid \<notin> set ordered" by auto
  from sub have nidN: "nid \<in> N" by auto
  have split: "\<And>v. pending E ordered v = pending E ?o v + count_list ?S v"
    by (rule pending_split [OF nid_new])
  have SN: "set ?S \<subseteq> N" by (rule successors_in [OF E])
  have pre: "\<forall>v\<in>set ?S. \<exists>d. map_of indeg v = Some d \<and> int (count_list ?S v) \<le> d"
  proof
    fix v assume "v \<in> set ?S"
    with SN have "v \<in> N" by auto
    with deg have "map_of indeg v = Some (int (pending E ordered v))" by blast
    moreover have "count_list ?S v \<le> pending E ordered v" using split [of v] by simp
    ultimately show "\<exists>d. map_of indeg v = Some d \<and> int (count_list ?S v) \<le> d" by simp
  qed
  from relax_spec [OF pre, of q] obtain indeg' news where
    r: "relax ?S indeg q = Inr (indeg', q @ news)"
    and m: "\<forall>k. map_of indeg' k = map_option (\<lambda>d. d - int (count_list ?S k)) (map_of indeg k)"
    and dn: "distinct news"
    and sn: "set news = {v \<in> set ?S. map_of indeg v = Some (int (count_list ?S v))}"
    by blast
  have news_iff: "\<And>v. v \<in> set news \<longleftrightarrow> v \<in> set ?S \<and> pending E ?o v = 0"
  proof -
    fix v
    show "v \<in> set news \<longleftrightarrow> v \<in> set ?S \<and> pending E ?o v = 0"
    proof (cases "v \<in> set ?S")
      case False
      then show ?thesis using sn by simp
    next
      case True
      with SN have "v \<in> N" by auto
      with deg have "map_of indeg v = Some (int (pending E ordered v))" by blast
      with True sn have "v \<in> set news \<longleftrightarrow> pending E ordered v = count_list ?S v" by auto
      with split [of v] True show ?thesis by auto
    qed
  qed
  have in_S: "\<And>v. v \<in> set ?S \<longleftrightarrow> count_list ?S v \<noteq> 0"
    by (simp add: count_list_0_iff)
  have news_fresh: "set news \<inter> set (ordered @ nid # q) = {}"
  proof (rule ccontr)
    assume "set news \<inter> set (ordered @ nid # q) \<noteq> {}"
    then obtain v where vn: "v \<in> set news" and vo: "v \<in> set (ordered @ nid # q)" by blast
    from vo sub have "v \<in> N" by blast
    with rdy vo have "pending E ordered v = 0" by blast
    with split [of v] have "count_list ?S v = 0" by simp
    with in_S [of v] news_iff [of v] vn show False by simp
  qed
  have c1: "distinct (?o @ q @ news)"
    using dist dn news_fresh by auto
  have c2: "set (?o @ q @ news) \<subseteq> N"
    using sub SN news_iff by auto
  have c3: "\<forall>v\<in>N. map_of indeg' v = Some (int (pending E ?o v))"
  proof
    fix v assume "v \<in> N"
    with deg have "map_of indeg v = Some (int (pending E ordered v))" by blast
    with m have "map_of indeg' v = Some (int (pending E ordered v) - int (count_list ?S v))" by simp
    with split [of v] show "map_of indeg' v = Some (int (pending E ?o v))" by simp
  qed
  have c4: "\<forall>v\<in>N. v \<in> set (?o @ q @ news) \<longleftrightarrow> pending E ?o v = 0"
  proof
    fix v assume vN: "v \<in> N"
    show "v \<in> set (?o @ q @ news) \<longleftrightarrow> pending E ?o v = 0"
    proof
      assume "v \<in> set (?o @ q @ news)"
      then consider "v \<in> set (ordered @ nid # q)" | "v \<in> set news" by auto
      then show "pending E ?o v = 0"
      proof cases
        case 1
        with rdy vN have "pending E ordered v = 0" by blast
        with split [of v] show ?thesis by simp
      next
        case 2
        with news_iff [of v] show ?thesis by simp
      qed
    next
      assume z: "pending E ?o v = 0"
      show "v \<in> set (?o @ q @ news)"
      proof (cases "v \<in> set ?S")
        case True
        with z news_iff [of v] show ?thesis by simp
      next
        case False
        with in_S [of v] have "count_list ?S v = 0" by simp
        with z split [of v] have "pending E ordered v = 0" by simp
        with rdy vN have "v \<in> set (ordered @ nid # q)" by blast
        then show ?thesis by auto
      qed
    qed
  qed
  have c5: "\<forall>e\<in>set E. snd e \<in> set ?o \<longrightarrow>
           fst e \<in> set ?o \<and> index_of (fst e) ?o < index_of (snd e) ?o"
  proof (intro ballI impI)
    fix e assume e: "e \<in> set E" and s: "snd e \<in> set ?o"
    show "fst e \<in> set ?o \<and> index_of (fst e) ?o < index_of (snd e) ?o"
    proof (cases "snd e \<in> set ordered")
      case True
      with edg e have "fst e \<in> set ordered" "index_of (fst e) ordered < index_of (snd e) ordered"
        by blast+
      with True show ?thesis by (simp add: index_of_append_in)
    next
      case False
      with s have sn: "snd e = nid" by simp
      from rdy nidN have "pending E ordered nid = 0" by auto
      with e sn have f: "fst e \<in> set ordered" unfolding pending_zero by blast
      have "index_of nid ?o = length ordered"
        using nid_new by (simp add: index_of_append_notin)
      moreover have "index_of (fst e) ?o < length ordered"
        using f by (simp add: index_of_append_in index_of_less)
      ultimately show ?thesis using f sn by simp
    qed
  qed
  have "kahn_inv N E indeg' (q @ news) ?o"
    unfolding kahn_inv_def using c1 c2 c3 c4 c5 by blast
  with r show ?thesis by blast
qed

lemma kahn_step_order:
  assumes E: "set E \<subseteq> N \<times> N"
      and inv: "kahn_inv N E indeg (nid # q) ordered"
  shows "\<exists>indeg'.
           relax (successors E nid) indeg q
             = Inr (indeg', q @ ready_successors E (ordered @ [nid]) q nid)
         \<and> kahn_inv N E indeg' (q @ ready_successors E (ordered @ [nid]) q nid) (ordered @ [nid])"
proof -
  let ?S = "successors E nid"
  let ?o = "ordered @ [nid]"
  from inv have dist: "distinct (ordered @ nid # q)"
    and sub: "set (ordered @ nid # q) \<subseteq> N"
    and deg: "\<forall>v\<in>N. map_of indeg v = Some (int (pending E ordered v))"
    and rdy: "\<forall>v\<in>N. v \<in> set (ordered @ nid # q) \<longleftrightarrow> pending E ordered v = 0"
    unfolding kahn_inv_def by blast+
  from dist have nid_new: "nid \<notin> set ordered" by auto
  have split: "\<And>v. pending E ordered v = pending E ?o v + count_list ?S v"
    by (rule pending_split [OF nid_new])
  have SN: "set ?S \<subseteq> N" by (rule successors_in [OF E])
  have pre: "\<forall>v\<in>set ?S. \<exists>d. map_of indeg v = Some d \<and> int (count_list ?S v) \<le> d"
  proof
    fix v assume "v \<in> set ?S"
    with SN have "v \<in> N" by auto
    with deg have "map_of indeg v = Some (int (pending E ordered v))" by blast
    moreover have "count_list ?S v \<le> pending E ordered v" using split [of v] by simp
    ultimately show "\<exists>d. map_of indeg v = Some d \<and> int (count_list ?S v) \<le> d" by simp
  qed
  from kahn_step [OF E inv] obtain indeg' news where
    r: "relax ?S indeg q = Inr (indeg', q @ news)"
    and i: "kahn_inv N E indeg' (q @ news) ?o" by blast
  from relax_spec_order [OF pre, of q] r
  have n: "news = filter (\<lambda>v. map_of indeg v = Some (int (count_list ?S v))) (remdups ?S)"
    by auto
  have "filter (\<lambda>v. map_of indeg v = Some (int (count_list ?S v))) (remdups ?S)
          = ready_successors E ?o q nid"
    unfolding ready_successors_def
  proof (rule filter_cong [OF refl])
    fix v assume "v \<in> set (remdups ?S)"
    then have vS: "v \<in> set ?S" by simp
    with SN have vN: "v \<in> N" by auto
    with deg have m: "map_of indeg v = Some (int (pending E ordered v))" by blast
    from vS have c: "count_list ?S v \<noteq> 0" by (simp add: count_list_0_iff)
    with split [of v] have "pending E ordered v \<noteq> 0" by simp
    moreover from rdy vN have "(v \<in> set (ordered @ nid # q)) = (pending E ordered v = 0)"
      by (rule bspec)
    ultimately have fresh: "v \<notin> set (ordered @ nid # q)" by simp
    from m split [of v]
    have "(map_of indeg v = Some (int (count_list ?S v))) = (pending E ?o v = 0)" by auto
    with fresh
    show "(map_of indeg v = Some (int (count_list ?S v)))
            = (pending E ?o v = 0 \<and> v \<notin> set ?o \<and> v \<notin> set q)"
      by auto
  qed
  with n have "news = ready_successors E ?o q nid" by simp
  with r i show ?thesis by blast
qed


lemma kahn_loop_inv:
  assumes "set E \<subseteq> N \<times> N"
      and "\<forall>u\<in>N. map_of adj u = Some (successors E u)"
      and "kahn_inv N E indeg q ordered"
  shows "\<exists>ordered' indeg' rest.
           kahn_loop adj indeg q ordered = Inr ordered'
         \<and> ordered' = ordered @ q @ rest
         \<and> kahn_inv N E indeg' [] ordered'"
  using assms
proof (induction adj indeg q ordered rule: kahn_loop.induct)
  case (1 adj indeg ordered)
  then show ?case by auto
next
  case (2 adj indeg nid q ordered)
  from "2.prems"(3) have "nid \<in> N" unfolding kahn_inv_def by auto
  with "2.prems"(2) have a: "map_of adj nid = Some (successors E nid)" by blast
  from kahn_step [OF "2.prems"(1) "2.prems"(3)] obtain indeg' news where
    r: "relax (successors E nid) indeg q = Inr (indeg', q @ news)"
    and i: "kahn_inv N E indeg' (q @ news) (ordered @ [nid])" by blast
  from "2.IH" [OF a r refl "2.prems"(1) "2.prems"(2) i] obtain ordered' indeg'' rest where
    k: "kahn_loop adj indeg' (q @ news) (ordered @ [nid]) = Inr ordered'"
    and o: "ordered' = (ordered @ [nid]) @ (q @ news) @ rest"
    and f: "kahn_inv N E indeg'' [] ordered'" by blast
  have "kahn_loop adj indeg (nid # q) ordered = Inr ordered'"
    using a r k by simp
  moreover have "ordered' = ordered @ (nid # q) @ (news @ rest)" using o by simp
  ultimately show ?case using f by blast
qed

lemma kahn_loop_fifo:
  assumes "set E \<subseteq> N \<times> N"
      and "\<forall>u\<in>N. map_of adj u = Some (successors E u)"
      and "kahn_inv N E indeg q ordered"
  shows "kahn_loop adj indeg q ordered = Inr (fifo_schedule E q ordered)"
  using assms
proof (induction adj indeg q ordered rule: kahn_loop.induct)
  case (1 adj indeg ordered)
  then show ?case by simp
next
  case (2 adj indeg nid q ordered)
  from "2.prems"(3) have "nid \<in> N" unfolding kahn_inv_def by auto
  with "2.prems"(2) have a: "map_of adj nid = Some (successors E nid)" by blast
  from kahn_step_order [OF "2.prems"(1) "2.prems"(3)] obtain indeg' where
    r: "relax (successors E nid) indeg q
          = Inr (indeg', q @ ready_successors E (ordered @ [nid]) q nid)"
    and i: "kahn_inv N E indeg' (q @ ready_successors E (ordered @ [nid]) q nid) (ordered @ [nid])"
    by blast
  from "2.IH" [OF a r refl "2.prems"(1) "2.prems"(2) i]
  have "kahn_loop adj indeg' (q @ ready_successors E (ordered @ [nid]) q nid) (ordered @ [nid])
          = Inr (fifo_schedule E (q @ ready_successors E (ordered @ [nid]) q nid) (ordered @ [nid]))" .
  with a r show ?case by simp
qed

lemma filter_by_value:
  "distinct (map fst al) \<Longrightarrow>
   map fst (filter (\<lambda>kv. snd kv = c) al) = filter (\<lambda>k. map_of al k = Some c) (map fst al)"
proof (induction al)
  case Nil
  then show ?case by simp
next
  case (Cons a al)
  from Cons.prems have "\<forall>k\<in>set (map fst al). k \<noteq> fst a" by force
  then have "filter (\<lambda>k. map_of (a # al) k = Some c) (map fst al)
               = filter (\<lambda>k. map_of al k = Some c) (map fst al)"
    by (intro filter_cong) auto
  with Cons show ?case by (cases a) auto
qed

lemma successors_links:
  "successors (map (\<lambda>l. (from_node l, to_node l)) (filter P ls)) k
     = map to_node (filter (\<lambda>l. from_node l = k \<and> P l) ls)"
  by (induction ls) (auto simp: successors_def)

lemma pending_links:
  "pending (map (\<lambda>l. (from_node l, to_node l)) (filter P ls)) [] v
     = length (filter (\<lambda>l. to_node l = v \<and> P l) ls)"
  by (induction ls) (auto simp: pending_def)

lemma in_degree_pending: "in_degree workflow v = pending (valid_edges workflow) [] v"
  by (simp add: in_degree_def pending_def)

lemma valid_edges_sub:
  "set (valid_edges workflow) \<subseteq> set (node_ids workflow) \<times> set (node_ids workflow)"
  by (auto simp: valid_edges_def valid_link_def)

lemma kahn_order_spec:
  "\<exists>ordered indeg' rest.
     kahn_order workflow = Inr ordered
   \<and> ordered = filter (\<lambda>v. in_degree workflow v = 0) (map fst (indeg_init (nodes workflow))) @ rest
   \<and> kahn_inv (set (node_ids workflow)) (valid_edges workflow) indeg' [] ordered
   \<and> ordered = fifo_schedule (valid_edges workflow)
       (filter (\<lambda>v. in_degree workflow v = 0) (map fst (indeg_init (nodes workflow)))) []"
proof -
  let ?ns = "nodes workflow"
  let ?N = "set (node_ids workflow)"
  let ?E = "valid_edges workflow"
  let ?P = "\<lambda>l. from_node l \<in> ?N \<and> to_node l \<in> ?N"
  have N: "?N = node_id ` set ?ns" by (simp add: node_ids_def)
  have P: "valid_link workflow = ?P" by (rule ext) (simp add: valid_link_def)
  have E: "?E = map (\<lambda>l. (from_node l, to_node l)) (filter ?P (links workflow))"
    by (simp add: valid_edges_def P)
  have nb: "\<forall>k. map_of (nodes_by_id_of ?ns) k \<noteq> None \<longleftrightarrow> k \<in> ?N"
    unfolding N by (simp only: nodes_by_id_in) simp
  have a0: "\<forall>k\<in>?N. map_of (adj_init ?ns) k \<noteq> None" by (simp add: adj_init_map_of N)
  have i0: "\<forall>k\<in>?N. map_of (indeg_init ?ns) k \<noteq> None" by (simp add: indeg_init_map_of N)
  from add_links_spec [OF nb a0 i0, of "links workflow"] obtain adj indeg where
    al: "add_links (nodes_by_id_of ?ns) (links workflow) (adj_init ?ns) (indeg_init ?ns) = Inr (adj, indeg)"
    and keys: "map fst indeg = map fst (indeg_init ?ns)"
    and adj: "\<forall>k. map_of adj k =
               map_option (\<lambda>outs. outs @ map to_node
                  (filter (\<lambda>l. from_node l = k \<and> from_node l \<in> ?N \<and> to_node l \<in> ?N) (links workflow)))
                 (map_of (adj_init ?ns) k)"
    and deg: "\<forall>k. map_of indeg k =
               map_option (\<lambda>d. d + int (length
                  (filter (\<lambda>l. to_node l = k \<and> from_node l \<in> ?N \<and> to_node l \<in> ?N) (links workflow))))
                 (map_of (indeg_init ?ns) k)"
    by blast
  have adj': "\<forall>u\<in>?N. map_of adj u = Some (successors ?E u)"
    unfolding E successors_links using adj by (simp add: adj_init_map_of N)
  have deg': "\<forall>v\<in>?N. map_of indeg v = Some (int (pending ?E [] v))"
    unfolding E pending_links using deg by (simp add: indeg_init_map_of N)
  have deg_none: "\<forall>v. v \<notin> ?N \<longrightarrow> map_of indeg v = None"
    using deg by (simp add: indeg_init_map_of N)
  let ?q = "map fst (filter (\<lambda>kv. snd kv = 0) indeg)"
  have dk: "distinct (map fst indeg)" unfolding keys by (rule indeg_init_keys_distinct)
  have ks: "set (map fst indeg) = ?N"
    unfolding keys N using indeg_init_keys_set [of ?ns] by simp
  have q: "?q = filter (\<lambda>v. in_degree workflow v = 0) (map fst (indeg_init ?ns))"
  proof -
    have "?q = filter (\<lambda>k. map_of indeg k = Some 0) (map fst indeg)"
      by (rule filter_by_value [OF dk])
    also have "\<dots> = filter (\<lambda>v. in_degree workflow v = 0) (map fst indeg)"
    proof (rule filter_cong [OF refl])
      fix v assume "v \<in> set (map fst indeg)"
      with ks have "v \<in> ?N" by simp
      with deg' have "map_of indeg v = Some (int (pending ?E [] v))" by blast
      then show "(map_of indeg v = Some 0) = (in_degree workflow v = 0)"
        by (simp add: in_degree_pending)
    qed
    finally show ?thesis unfolding keys .
  qed
  have dq: "distinct ?q" unfolding filter_by_value [OF dk] using dk by simp
  have sq: "set ?q = {v \<in> ?N. pending ?E [] v = 0}"
    unfolding filter_by_value [OF dk] using ks deg' by auto
  have inv0: "kahn_inv ?N ?E indeg ?q []"
    unfolding kahn_inv_def using dq sq deg' by auto
  from kahn_loop_inv [OF valid_edges_sub adj' inv0] obtain ordered indeg' rest where
    k: "kahn_loop adj indeg ?q [] = Inr ordered"
    and o: "ordered = [] @ ?q @ rest"
    and f: "kahn_inv ?N ?E indeg' [] ordered" by blast
  from kahn_loop_fifo [OF valid_edges_sub adj' inv0] k
  have ff: "ordered = fifo_schedule ?E ?q []" by simp
  have "kahn_order workflow = Inr ordered"
    unfolding kahn_order_def using al k by simp
  moreover from o q
  have "ordered = filter (\<lambda>v. in_degree workflow v = 0) (map fst (indeg_init ?ns)) @ rest"
    by simp
  moreover from ff q
  have "ordered = fifo_schedule ?E
          (filter (\<lambda>v. in_degree workflow v = 0) (map fst (indeg_init ?ns))) []"
    by simp
  ultimately show ?thesis using f by blast
qed

subsection \<open>What the scheduler returns\<close>

lemma lookup_nodes_spec:
  "set ordered \<subseteq> node_id ` set ns \<Longrightarrow>
   \<exists>order. lookup_nodes (nodes_by_id_of ns) ordered = Inr order
         \<and> map node_id order = ordered \<and> set order \<subseteq> set ns"
proof (induction ordered)
  case Nil
  then show ?case by simp
next
  case (Cons k ordered)
  from Cons.prems nodes_by_id_in [of ns k] have "map_of (nodes_by_id_of ns) k \<noteq> None"
    by auto
  then obtain n where n: "map_of (nodes_by_id_of ns) k = Some n" by auto
  from nodes_by_id_Some [OF n] have n': "n \<in> set ns" "node_id n = k" by simp_all
  from Cons obtain order where "lookup_nodes (nodes_by_id_of ns) ordered = Inr order"
    "map node_id order = ordered" "set order \<subseteq> set ns" by auto
  with n n' show ?case by simp
qed

lemma kahn_order_facts:
  assumes "kahn_order workflow = Inr ordered"
  shows "distinct ordered"
    and "set ordered \<subseteq> set (node_ids workflow)"
    and "\<forall>v\<in>set (node_ids workflow). v \<in> set ordered \<longleftrightarrow> pending (valid_edges workflow) ordered v = 0"
    and "\<forall>e\<in>set (valid_edges workflow). snd e \<in> set ordered \<longrightarrow>
           fst e \<in> set ordered \<and> index_of (fst e) ordered < index_of (snd e) ordered"
    and "\<exists>rest. ordered =
           filter (\<lambda>v. in_degree workflow v = 0) (map fst (indeg_init (nodes workflow))) @ rest"
    and "ordered = fifo_schedule (valid_edges workflow)
           (filter (\<lambda>v. in_degree workflow v = 0) (map fst (indeg_init (nodes workflow)))) []"
proof -
  from kahn_order_spec [of workflow] obtain ordered' indeg' rest where
    k': "kahn_order workflow = Inr ordered'"
    and o': "ordered' = filter (\<lambda>v. in_degree workflow v = 0) (map fst (indeg_init (nodes workflow))) @ rest"
    and f': "kahn_inv (set (node_ids workflow)) (valid_edges workflow) indeg' [] ordered'"
    and ff': "ordered' = fifo_schedule (valid_edges workflow)
           (filter (\<lambda>v. in_degree workflow v = 0) (map fst (indeg_init (nodes workflow)))) []"
    by blast
  from k' assms have e: "ordered' = ordered" by simp
  note o = o' [unfolded e] and f = f' [unfolded e] and ff = ff' [unfolded e]
  from f show "distinct ordered" "set ordered \<subseteq> set (node_ids workflow)"
    "\<forall>v\<in>set (node_ids workflow). v \<in> set ordered \<longleftrightarrow> pending (valid_edges workflow) ordered v = 0"
    "\<forall>e\<in>set (valid_edges workflow). snd e \<in> set ordered \<longrightarrow>
           fst e \<in> set ordered \<and> index_of (fst e) ordered < index_of (snd e) ordered"
    unfolding kahn_inv_def by simp_all
  from o show "\<exists>rest. ordered =
           filter (\<lambda>v. in_degree workflow v = 0) (map fst (indeg_init (nodes workflow))) @ rest"
    by blast
  from ff show "ordered = fifo_schedule (valid_edges workflow)
           (filter (\<lambda>v. in_degree workflow v = 0) (map fst (indeg_init (nodes workflow)))) []" .
qed

lemma kahn_order_total: "\<exists>ordered. kahn_order workflow = Inr ordered"
  using kahn_order_spec [of workflow] by blast

lemma kahn_order_length:
  assumes "kahn_order workflow = Inr ordered"
  shows "length ordered \<le> card (set (node_ids workflow))"
    and "card (set (node_ids workflow)) \<le> length (nodes workflow)"
proof -
  from kahn_order_facts(1) [OF assms] have "card (set ordered) = length ordered"
    by (rule distinct_card)
  moreover from kahn_order_facts(2) [OF assms]
  have "card (set ordered) \<le> card (set (node_ids workflow))"
    by (intro card_mono) simp_all
  ultimately show "length ordered \<le> card (set (node_ids workflow))" by simp
  show "card (set (node_ids workflow)) \<le> length (nodes workflow)"
    using card_length [of "node_ids workflow"] by (simp add: node_ids_def)
qed

lemma topo_sort_unfold:
  assumes "kahn_order workflow = Inr ordered"
  shows "length ordered \<noteq> length (nodes workflow) \<Longrightarrow> topo_sort workflow = Inl GraphError"
    and "length ordered = length (nodes workflow) \<Longrightarrow>
         \<exists>order. topo_sort workflow = Inr order \<and> map node_id order = ordered
               \<and> set order \<subseteq> set (nodes workflow)"
proof -
  show "length ordered \<noteq> length (nodes workflow) \<Longrightarrow> topo_sort workflow = Inl GraphError"
    using assms by (simp add: topo_sort_def)
  assume len: "length ordered = length (nodes workflow)"
  from kahn_order_facts(2) [OF assms]
  have "set ordered \<subseteq> node_id ` set (nodes workflow)" by (simp add: node_ids_def)
  from lookup_nodes_spec [OF this] len assms
  show "\<exists>order. topo_sort workflow = Inr order \<and> map node_id order = ordered
               \<and> set order \<subseteq> set (nodes workflow)"
    by (auto simp: topo_sort_def)
qed

lemma topo_sort_error: "topo_sort workflow = Inl e \<Longrightarrow> e = GraphError"
proof -
  assume a: "topo_sort workflow = Inl e"
  from kahn_order_total obtain ordered where k: "kahn_order workflow = Inr ordered" by blast
  show "e = GraphError"
  proof (cases "length ordered = length (nodes workflow)")
    case True
    from topo_sort_unfold(2) [OF k True] a show ?thesis by auto
  next
    case False
    from topo_sort_unfold(1) [OF k False] a show ?thesis by simp
  qed
qed

lemma topo_sort_success:
  assumes "topo_sort workflow = Inr order"
  shows "kahn_order workflow = Inr (map node_id order)"
    and "distinct (node_ids workflow)"
    and "set (map node_id order) = set (node_ids workflow)"
    and "length order = length (nodes workflow)"
    and "set order = set (nodes workflow)"
    and "distinct (map node_id order)"
proof -
  from kahn_order_total obtain ordered where k: "kahn_order workflow = Inr ordered" by blast
  have len: "length ordered = length (nodes workflow)"
    using topo_sort_unfold(1) [OF k] assms by fastforce
  from topo_sort_unfold(2) [OF k len] assms
  have m: "map node_id order = ordered" and sub: "set order \<subseteq> set (nodes workflow)" by auto
  from k m show "kahn_order workflow = Inr (map node_id order)" by simp
  from m len show l: "length order = length (nodes workflow)" by (metis length_map)
  from kahn_order_length [OF k] len
  have c: "card (set (node_ids workflow)) = length (node_ids workflow)"
    and c': "card (set (node_ids workflow)) = length ordered"
    by (simp_all add: node_ids_def)
  from c show d: "distinct (node_ids workflow)" by (rule card_distinct)
  from kahn_order_facts(1) [OF k] have do: "distinct ordered" .
  with c' have "card (set ordered) = card (set (node_ids workflow))" by (simp add: distinct_card)
  with kahn_order_facts(2) [OF k] have "set ordered = set (node_ids workflow)"
    by (intro card_subset_eq) simp_all
  with m show "set (map node_id order) = set (node_ids workflow)" by simp
  from do m show "distinct (map node_id order)" by simp
  then have "distinct order" by (simp add: distinct_map)
  moreover from d have "distinct (nodes workflow)" unfolding node_ids_def by (simp add: distinct_map)
  ultimately have "card (set order) = card (set (nodes workflow))"
    using l by (simp add: distinct_card)
  with sub show "set order = set (nodes workflow)" by (intro card_subset_eq) simp_all
qed

lemma kahn_acyclic_complete:
  assumes "kahn_order workflow = Inr ordered" and "acyclic (set (valid_edges workflow))"
  shows "set ordered = set (node_ids workflow)"
proof (rule ccontr)
  let ?N = "set (node_ids workflow)"
  let ?E = "valid_edges workflow"
  assume "set ordered \<noteq> ?N"
  with kahn_order_facts(2) [OF assms(1)] obtain x where x: "x \<in> ?N - set ordered" by blast
  have "wf (set ?E)" using assms(2) by (simp add: finite_acyclic_wf)
  from wfE_min [OF this x] obtain z where z: "z \<in> ?N - set ordered"
    and zmin: "\<And>y. (y, z) \<in> set ?E \<Longrightarrow> y \<notin> ?N - set ordered" by blast
  from z kahn_order_facts(3) [OF assms(1)] have "pending ?E ordered z \<noteq> 0" by blast
  then obtain e where e: "e \<in> set ?E" "snd e = z" "fst e \<notin> set ordered"
    unfolding pending_zero by blast
  from e(1) valid_edges_sub [of workflow] have "fst e \<in> ?N" by auto
  moreover from e have "(fst e, z) \<in> set ?E" by auto
  ultimately show False using zmin e(3) by blast
qed

lemma kahn_complete_acyclic:
  assumes "kahn_order workflow = Inr ordered" and "set ordered = set (node_ids workflow)"
  shows "acyclic (set (valid_edges workflow))"
proof -
  let ?E = "valid_edges workflow"
  have "set ?E \<subseteq> inv_image less_than (\<lambda>v. index_of v ordered)"
  proof
    fix e assume e: "e \<in> set ?E"
    with valid_edges_sub [of workflow] assms(2) have "snd e \<in> set ordered" by auto
    with kahn_order_facts(4) [OF assms(1)] e
    have "index_of (fst e) ordered < index_of (snd e) ordered" by blast
    then show "e \<in> inv_image less_than (\<lambda>v. index_of v ordered)"
      by (cases e) simp
  qed
  moreover have "wf (inv_image less_than (\<lambda>v. index_of v ordered))" by simp
  ultimately have "wf (set ?E)" by (rule wf_subset [rotated])
  then show ?thesis by (rule wf_acyclic)
qed

lemma topo_sort_acyclic_success:
  assumes "distinct (node_ids workflow)" and "acyclic (set (valid_edges workflow))"
  shows "\<exists>order. topo_sort workflow = Inr order"
proof -
  from kahn_order_total obtain ordered where k: "kahn_order workflow = Inr ordered" by blast
  from kahn_acyclic_complete [OF k assms(2)] have "set ordered = set (node_ids workflow)" .
  with kahn_order_facts(1) [OF k] assms(1)
  have "length ordered = length (node_ids workflow)"
    by (metis distinct_card)
  then have "length ordered = length (nodes workflow)" by (simp add: node_ids_def)
  from topo_sort_unfold(2) [OF k this] show ?thesis by blast
qed

lemma topo_sort_fails_iff:
  "topo_sort workflow = Inl GraphError \<longleftrightarrow>
     \<not> distinct (node_ids workflow) \<or> \<not> acyclic (set (valid_edges workflow))"
proof
  assume f: "topo_sort workflow = Inl GraphError"
  show "\<not> distinct (node_ids workflow) \<or> \<not> acyclic (set (valid_edges workflow))"
    using topo_sort_acyclic_success [of workflow] f by auto
next
  assume a: "\<not> distinct (node_ids workflow) \<or> \<not> acyclic (set (valid_edges workflow))"
  show "topo_sort workflow = Inl GraphError"
  proof (cases "topo_sort workflow")
    case (Inl e)
    with topo_sort_error show ?thesis by blast
  next
    case (Inr order)
    from topo_sort_success(1,2,3) [OF Inr] kahn_complete_acyclic [of workflow "map node_id order"] a
    show ?thesis by blast
  qed
qed

section \<open>Properties of the scheduler\<close>

lemma acyclic_empty: "acyclic {}"
  by (simp add: acyclic_def)

lemmas graph_defs = mk_node_def mk_link_def node_ids_def valid_edges_def valid_link_def
lemmas sched_defs = kahn_order_def nodes_by_id_of_def adj_init_def indeg_init_def

lemma index_of_filter_mono:
  "P a \<Longrightarrow> P b \<Longrightarrow> index_of a xs < index_of b xs \<Longrightarrow>
   index_of a (filter P xs) < index_of b (filter P xs)"
  by (induction xs) (auto split: if_splits)

text \<open>
  C1. For a graph with unique node ids whose valid edges (the links with both endpoints
  among the declared nodes) form no cycle, \<open>topo_sort\<close> returns an order; the order holds
  exactly the declared nodes, once each, and for every valid link the position of its
  \<open>from_node\<close> is strictly before the position of its \<open>to_node\<close>.
\<close>

theorem topo_sort_linearization:
  assumes "distinct (node_ids workflow)" and "acyclic (set (valid_edges workflow))"
  shows "\<exists>order. topo_sort workflow = Inr order
           \<and> set order = set (nodes workflow) \<and> length order = length (nodes workflow)
           \<and> (\<forall>link\<in>set (links workflow). valid_link workflow link \<longrightarrow>
                 index_of (from_node link) (map node_id order)
                   < index_of (to_node link) (map node_id order)
               \<and> index_of (to_node link) (map node_id order) < length order)"
proof -
  from topo_sort_acyclic_success [OF assms] obtain order where o: "topo_sort workflow = Inr order"
    by blast
  let ?ids = "map node_id order"
  note s = topo_sort_success [OF o]
  have "index_of (from_node link) ?ids < index_of (to_node link) ?ids
          \<and> index_of (to_node link) ?ids < length order"
    if l: "link \<in> set (links workflow)" and v: "valid_link workflow link" for link
  proof -
    from l v have e: "(from_node link, to_node link) \<in> set (valid_edges workflow)"
      by (auto simp: valid_edges_def)
    from v s(3) have t: "to_node link \<in> set ?ids" by (simp add: valid_link_def)
    from kahn_order_facts(4) [OF s(1)] e t
    have "index_of (from_node link) ?ids < index_of (to_node link) ?ids" by fastforce
    moreover from index_of_less [OF t] have "index_of (to_node link) ?ids < length order" by simp
    ultimately show ?thesis ..
  qed
  with o s(4,5) show ?thesis by blast
qed

theorem topo_sort_linearization_witness:
  "distinct (node_ids chain_wf) \<and> acyclic (set (valid_edges chain_wf))
   \<and> topo_sort chain_wf
       = Inr [mk_node ''T'' ''Text'', mk_node ''M'' ''MergeAudio'', mk_node ''W'' ''WriteFile'']
   \<and> index_of ''M'' [''T'', ''M'', ''W''] < index_of ''W'' [''T'', ''M'', ''W'']
   \<and> index_of ''T'' [''T'', ''M'', ''W''] < index_of ''M'' [''T'', ''M'', ''W'']"
proof -
  have d: "distinct (node_ids chain_wf)" by (simp add: chain_wf_def graph_defs)
  have a: "acyclic (set (valid_edges chain_wf))"
    by (simp add: chain_wf_def graph_defs rtrancl_insert acyclic_empty)
  have k: "kahn_order chain_wf = Inr [''T'', ''M'', ''W'']"
    by (simp add: sched_defs chain_wf_def mk_node_def mk_link_def)
  have t: "topo_sort chain_wf
             = Inr [mk_node ''T'' ''Text'', mk_node ''M'' ''MergeAudio'', mk_node ''W'' ''WriteFile'']"
    unfolding topo_sort_def k by (simp add: chain_wf_def mk_node_def nodes_by_id_of_def)
  from topo_sort_linearization [OF d a] t
  have lin: "\<forall>link\<in>set (links chain_wf). valid_link chain_wf link \<longrightarrow>
                 index_of (from_node link) [''T'', ''M'', ''W'']
                   < index_of (to_node link) [''T'', ''M'', ''W'']"
    by (auto simp: mk_node_def)
  have "index_of ''M'' [''T'', ''M'', ''W''] < index_of ''W'' [''T'', ''M'', ''W'']"
    using lin by (simp add: chain_wf_def graph_defs)
  moreover have "index_of ''T'' [''T'', ''M'', ''W''] < index_of ''M'' [''T'', ''M'', ''W'']"
    using lin by (simp add: chain_wf_def graph_defs)
  ultimately show ?thesis using d a t by blast
qed

text \<open>
  C3. Ties among simultaneously ready nodes are not always broken by declaration order:
  in \<open>tie_wf\<close> the nodes \<open>B\<close> and \<open>C\<close> have the single predecessor
  \<open>A\<close>, so both become ready when \<open>A\<close> is dequeued, and \<open>B\<close> is declared before
  \<open>C\<close>; the link into \<open>C\<close> is declared first, \<^verbatim>\<open>adj["A"]\<close> is \<open>[C, B]\<close>, and
  \<open>C\<close> is scheduled before \<open>B\<close>.
\<close>

theorem tie_break_counterexample:
  "distinct (node_ids tie_wf)
   \<and> filter (\<lambda>e. snd e = ''B'') (valid_edges tie_wf) = [(''A'', ''B'')]
   \<and> filter (\<lambda>e. snd e = ''C'') (valid_edges tie_wf) = [(''A'', ''C'')]
   \<and> index_of ''B'' (node_ids tie_wf) < index_of ''C'' (node_ids tie_wf)
   \<and> topo_sort tie_wf = Inr [mk_node ''A'' ''Text'', mk_node ''C'' ''Text'', mk_node ''B'' ''Text'']
   \<and> index_of ''C'' (map node_id [mk_node ''A'' ''Text'', mk_node ''C'' ''Text'', mk_node ''B'' ''Text''])
       < index_of ''B'' (map node_id [mk_node ''A'' ''Text'', mk_node ''C'' ''Text'', mk_node ''B'' ''Text''])"
proof -
  have k: "kahn_order tie_wf = Inr [''A'', ''C'', ''B'']"
    by (simp add: sched_defs tie_wf_def mk_node_def mk_link_def)
  have t: "topo_sort tie_wf = Inr [mk_node ''A'' ''Text'', mk_node ''C'' ''Text'', mk_node ''B'' ''Text'']"
    unfolding topo_sort_def k by (simp add: tie_wf_def mk_node_def nodes_by_id_of_def)
  show ?thesis unfolding t by (simp add: tie_wf_def graph_defs)
qed

text \<open>
  C3, as amended. For a graph with unique node ids the scheduled ids are the schedule of a
  strict first-in first-out queue, \<open>fifo_schedule\<close>: the queue is seeded with the nodes
  of in-degree zero in declaration order, and each time the front node is dequeued, its
  successors that have become ready go to the back of the queue in the order in which the
  links from that node were declared. So the list of scheduled ids starts with the nodes of
  in-degree zero, in declaration order, and of two declared nodes of in-degree zero the
  one declared first is scheduled first; nodes that become ready later follow link
  declaration order, not node declaration order. It is the order \<open>topo_sort\<close> returns
  when it returns one.
\<close>

theorem topo_sort_seed_order:
  assumes "distinct (node_ids workflow)"
  shows "\<exists>ordered rest.
           kahn_order workflow = Inr ordered
         \<and> ordered = fifo_schedule (valid_edges workflow)
             (filter (\<lambda>v. in_degree workflow v = 0) (node_ids workflow)) []
         \<and> ordered = filter (\<lambda>v. in_degree workflow v = 0) (node_ids workflow) @ rest
         \<and> (\<forall>order. topo_sort workflow = Inr order \<longrightarrow> map node_id order = ordered)
         \<and> (\<forall>a b. a \<in> set (node_ids workflow) \<and> in_degree workflow a = 0
                 \<and> in_degree workflow b = 0
                 \<and> index_of a (node_ids workflow) < index_of b (node_ids workflow)
               \<longrightarrow> index_of a ordered < index_of b ordered)"
proof -
  let ?ids = "node_ids workflow"
  let ?Z = "\<lambda>v. in_degree workflow v = 0"
  from kahn_order_total obtain ordered where k: "kahn_order workflow = Inr ordered" by blast
  from assms have keys: "map fst (indeg_init (nodes workflow)) = ?ids"
    unfolding node_ids_def by (rule indeg_init_keys)
  from kahn_order_facts(5) [OF k] obtain rest where o: "ordered = filter ?Z ?ids @ rest"
    unfolding keys by blast
  from kahn_order_facts(6) [OF k]
  have ff: "ordered = fifo_schedule (valid_edges workflow) (filter ?Z ?ids) []"
    unfolding keys .
  have ord: "map node_id order = ordered" if "topo_sort workflow = Inr order" for order
    using topo_sort_success(1) [OF that] k by simp
  have tie: "index_of a ordered < index_of b ordered"
    if a: "a \<in> set ?ids" "?Z a" and b: "?Z b" and lt: "index_of a ?ids < index_of b ?ids" for a b
  proof -
    from a have ain: "a \<in> set (filter ?Z ?ids)" by simp
    from index_of_filter_mono [of ?Z a b ?ids] a b lt
    have f: "index_of a (filter ?Z ?ids) < index_of b (filter ?Z ?ids)" by simp
    have ia: "index_of a ordered = index_of a (filter ?Z ?ids)"
      unfolding o by (rule index_of_append_in [OF ain])
    show ?thesis
    proof (cases "b \<in> set (filter ?Z ?ids)")
      case True
      have "index_of b ordered = index_of b (filter ?Z ?ids)"
        unfolding o by (rule index_of_append_in [OF True])
      with ia f show ?thesis by simp
    next
      case False
      have "index_of b ordered = length (filter ?Z ?ids) + index_of b rest"
        unfolding o by (rule index_of_append_notin [OF False])
      with ia index_of_less [OF ain] show ?thesis by simp
    qed
  qed
  from k ff o ord tie show ?thesis by blast
qed

theorem topo_sort_seed_order_witness:
  "distinct (node_ids branches_wf)
   \<and> kahn_order branches_wf = Inr [''P'', ''Q'', ''R'']
   \<and> filter (\<lambda>v. in_degree branches_wf v = 0) (node_ids branches_wf) = [''P'', ''Q'']
   \<and> index_of ''P'' (node_ids branches_wf) < index_of ''Q'' (node_ids branches_wf)
   \<and> index_of ''P'' [''P'', ''Q'', ''R''] < index_of ''Q'' [''P'', ''Q'', ''R'']
   \<and> fifo_schedule (valid_edges branches_wf) [''P'', ''Q''] [] = [''P'', ''Q'', ''R'']
   \<and> distinct (node_ids tie_wf)
   \<and> filter (\<lambda>v. in_degree tie_wf v = 0) (node_ids tie_wf) = [''A'']
   \<and> fifo_schedule (valid_edges tie_wf) [''A''] [] = [''A'', ''C'', ''B'']
   \<and> kahn_order tie_wf = Inr [''A'', ''C'', ''B'']"
proof -
  have d: "distinct (node_ids branches_wf)" by (simp add: branches_wf_def graph_defs)
  have k: "kahn_order branches_wf = Inr [''P'', ''Q'', ''R'']"
    by (simp add: sched_defs branches_wf_def mk_node_def mk_link_def)
  have z: "filter (\<lambda>v. in_degree branches_wf v = 0) (node_ids branches_wf) = [''P'', ''Q'']"
    by (simp add: in_degree_def branches_wf_def graph_defs)
  have i: "index_of ''P'' (node_ids branches_wf) < index_of ''Q'' (node_ids branches_wf)"
    by (simp add: branches_wf_def graph_defs)
  have zp: "in_degree branches_wf ''P'' = 0" "in_degree branches_wf ''Q'' = 0"
    "''P'' \<in> set (node_ids branches_wf)"
    by (simp_all add: in_degree_def branches_wf_def graph_defs)
  from topo_sort_seed_order [OF d] obtain ordered where
    ko: "kahn_order branches_wf = Inr ordered"
    and fo: "ordered = fifo_schedule (valid_edges branches_wf)
               (filter (\<lambda>v. in_degree branches_wf v = 0) (node_ids branches_wf)) []"
    and tie: "\<forall>a b. a \<in> set (node_ids branches_wf) \<and> in_degree branches_wf a = 0
                 \<and> in_degree branches_wf b = 0
                 \<and> index_of a (node_ids branches_wf) < index_of b (node_ids branches_wf)
               \<longrightarrow> index_of a ordered < index_of b ordered"
    by blast
  from ko k have oe: "ordered = [''P'', ''Q'', ''R'']" by simp
  from tie zp i have "index_of ''P'' ordered < index_of ''Q'' ordered" by blast
  then have p: "index_of ''P'' [''P'', ''Q'', ''R''] < index_of ''Q'' [''P'', ''Q'', ''R'']"
    unfolding oe .
  from fo have fb: "fifo_schedule (valid_edges branches_wf) [''P'', ''Q''] [] = [''P'', ''Q'', ''R'']"
    unfolding oe z by (rule sym)
  have dt: "distinct (node_ids tie_wf)" by (simp add: tie_wf_def graph_defs)
  have zt: "filter (\<lambda>v. in_degree tie_wf v = 0) (node_ids tie_wf) = [''A'']"
    by (simp add: in_degree_def tie_wf_def graph_defs)
  have ft: "fifo_schedule (valid_edges tie_wf) [''A''] [] = [''A'', ''C'', ''B'']"
    by (simp add: tie_wf_def graph_defs ready_successors_def pending_def successors_def)
  from topo_sort_seed_order [OF dt] obtain ordered_t where
    kt0: "kahn_order tie_wf = Inr ordered_t"
    and ft0: "ordered_t = fifo_schedule (valid_edges tie_wf)
               (filter (\<lambda>v. in_degree tie_wf v = 0) (node_ids tie_wf)) []"
    by blast
  from ft0 have "ordered_t = [''A'', ''C'', ''B'']" unfolding zt ft .
  with kt0 have kt: "kahn_order tie_wf = Inr [''A'', ''C'', ''B'']" by simp
  from d k z i p fb dt zt ft kt show ?thesis by blast
qed

lemma lookup_source_build:
  assumes "filter (targets n p) (links workflow) \<noteq> []"
  shows "lookup_source (build_input_map workflow) n p
           = Some (from_node (last (filter (targets n p) (links workflow))),
                   from_port (last (filter (targets n p) (links workflow))))"
proof -
  from assms obtain x xs where "filter (targets n p) (links workflow) = x # xs"
    by (cases "filter (targets n p) (links workflow)") auto
  then show ?thesis unfolding build_input_map_def lookup_source_foldl by simp
qed

lemma add_links_skip:
  "map_of nb (from_node l) = None \<or> map_of nb (to_node l) = None \<Longrightarrow>
   add_links nb (ls1 @ l # ls2) adj indeg = add_links nb (ls1 @ ls2) adj indeg"
  by (induction ls1 arbitrary: adj indeg) (auto split: option.splits)

text \<open>
  C6. A link whose \<open>from_node\<close> or \<open>to_node\<close> is not a declared node id is skipped by
  the loop over the links: \<^verbatim>\<open>adj\<close> and \<^verbatim>\<open>indeg\<close> come out as if the link were not
  there, from any state, and so do the valid edges, the scheduled ids and the result of
  \<open>topo_sort\<close>. The dependency map still records it: unless a later link targets the
  same input port, that port is bound to the link's source and \<open>resolve_input\<close> reads
  the value captured for it.
\<close>

theorem dangling_link_asymmetry:
  assumes "links workflow = ls1 @ link # ls2" and "\<not> valid_link workflow link"
  shows "add_links (nodes_by_id_of (nodes workflow)) (links workflow) adj indeg
           = add_links (nodes_by_id_of (nodes workflow)) (ls1 @ ls2) adj indeg
         \<and> valid_edges workflow = valid_edges (workflow\<lparr>links := ls1 @ ls2\<rparr>)
         \<and> kahn_order workflow = kahn_order (workflow\<lparr>links := ls1 @ ls2\<rparr>)
         \<and> topo_sort workflow = topo_sort (workflow\<lparr>links := ls1 @ ls2\<rparr>)
         \<and> (filter (targets (to_node link) (to_port link)) ls2 = [] \<longrightarrow>
              lookup_source (build_input_map workflow) (to_node link) (to_port link)
                = Some (from_node link, from_port link)
            \<and> resolve_input (to_node link) (to_port link) (build_input_map workflow) ctx
                = captured ctx (from_node link) (from_port link))"
proof -
  let ?nb = "nodes_by_id_of (nodes workflow)"
  let ?w = "workflow\<lparr>links := ls1 @ ls2\<rparr>"
  from assms(2) nodes_by_id_in [of "nodes workflow" "from_node link"]
    nodes_by_id_in [of "nodes workflow" "to_node link"]
  have "map_of ?nb (from_node link) = None \<or> map_of ?nb (to_node link) = None"
    unfolding valid_link_def node_ids_def by auto
  then have skip: "\<And>adj indeg. add_links ?nb (links workflow) adj indeg = add_links ?nb (ls1 @ ls2) adj indeg"
    unfolding assms(1) by (rule add_links_skip)
  have vl: "valid_link ?w = valid_link workflow"
    by (rule ext) (simp add: valid_link_def node_ids_def)
  have ve: "valid_edges workflow = valid_edges ?w"
    unfolding valid_edges_def vl using assms by simp
  have ko: "kahn_order workflow = kahn_order ?w"
    unfolding kahn_order_def skip by simp
  have n: "nodes ?w = nodes workflow" by simp
  have ts: "topo_sort workflow = topo_sort ?w"
    unfolding topo_sort_def ko n by (rule refl)
  have dm: "lookup_source (build_input_map workflow) (to_node link) (to_port link)
                = Some (from_node link, from_port link)
            \<and> resolve_input (to_node link) (to_port link) (build_input_map workflow) ctx
                = captured ctx (from_node link) (from_port link)"
    if "filter (targets (to_node link) (to_port link)) ls2 = []"
  proof -
    have fl: "filter (targets (to_node link) (to_port link)) (links workflow)
                = filter (targets (to_node link) (to_port link)) ls1 @ [link]"
      unfolding assms(1) using that by (simp add: targets_def)
    then have "filter (targets (to_node link) (to_port link)) (links workflow) \<noteq> []" by simp
    from lookup_source_build [OF this]
    have "lookup_source (build_input_map workflow) (to_node link) (to_port link)
            = Some (from_node link, from_port link)"
      unfolding fl by simp
    then show ?thesis by (simp add: resolve_input_eq)
  qed
  from skip ve ko ts dm show ?thesis by blast
qed

theorem dangling_link_asymmetry_witness:
  "links dangling_wf = [] @ mk_link ''ghost'' ''text'' ''B'' ''text'' # [mk_link ''A'' ''text'' ''B'' ''aux'']
   \<and> \<not> valid_link dangling_wf (mk_link ''ghost'' ''text'' ''B'' ''text'')
   \<and> topo_sort dangling_wf = Inr [mk_node ''A'' ''Text'', mk_node ''B'' ''WriteFile'']
   \<and> topo_sort (dangling_wf\<lparr>links := [mk_link ''A'' ''text'' ''B'' ''aux'']\<rparr>)
       = Inr [mk_node ''A'' ''Text'', mk_node ''B'' ''WriteFile'']
   \<and> lookup_source (build_input_map dangling_wf) ''B'' ''text'' = Some (''ghost'', ''text'')
   \<and> resolve_input ''B'' ''text'' (build_input_map dangling_wf) fanin_ctx = None"
proof -
  let ?l = "mk_link ''ghost'' ''text'' ''B'' ''text''"
  have l: "links dangling_wf = [] @ ?l # [mk_link ''A'' ''text'' ''B'' ''aux'']"
    by (simp add: dangling_wf_def)
  have v: "\<not> valid_link dangling_wf ?l" by (simp add: dangling_wf_def graph_defs)
  have k: "kahn_order dangling_wf = Inr [''A'', ''B'']"
    by (simp add: sched_defs dangling_wf_def mk_node_def mk_link_def)
  have t: "topo_sort dangling_wf = Inr [mk_node ''A'' ''Text'', mk_node ''B'' ''WriteFile'']"
    unfolding topo_sort_def k by (simp add: dangling_wf_def mk_node_def nodes_by_id_of_def)
  have f: "filter (targets (to_node ?l) (to_port ?l)) [mk_link ''A'' ''text'' ''B'' ''aux''] = []"
    by (simp add: targets_def mk_link_def)
  have c: "captured fanin_ctx ''ghost'' ''text'' = None" by (simp add: captured_def fanin_ctx_def)
  from dangling_link_asymmetry [OF l v, of _ _ fanin_ctx] f t c l v
  show ?thesis by (simp add: mk_link_def)
qed

section \<open>The executor\<close>

inductive_cases run_nodes_NilE: "run_nodes runners im [] ctx r"
inductive_cases run_nodes_ConsE: "run_nodes runners im (node # rest) ctx r"

lemma execute_graph_error_iff:
  assumes "topo_sort workflow = Inl e"
  shows "execute_workflow runners ws workflow r \<longleftrightarrow> r = Raised e ExecutionContext_init"
proof
  assume "execute_workflow runners ws workflow r"
  then show "r = Raised e ExecutionContext_init"
    using assms by cases simp_all
next
  assume "r = Raised e ExecutionContext_init"
  with assms show "execute_workflow runners ws workflow r"
    by (simp add: exec_graph_error)
qed

lemma api_graph_error_iff:
  assumes "topo_sort workflow = Inl e"
  shows "run_workflow_api runners ws workflow resp \<longleftrightarrow> resp = Inl (400, error_message e)"
proof
  assume "run_workflow_api runners ws workflow resp"
  then show "resp = Inl (400, error_message e)"
    using execute_graph_error_iff [OF assms, of runners ws] by cases simp_all
next
  assume "resp = Inl (400, error_message e)"
  moreover have "execute_workflow runners ws workflow (Raised e ExecutionContext_init)"
    using assms by (rule exec_graph_error)
  ultimately show "run_workflow_api runners ws workflow resp"
    by (simp add: api_error)
qed

lemma deterministic_runnerD:
  "deterministic_runner h \<Longrightarrow> h n im ctx a \<Longrightarrow> h n im ctx b \<Longrightarrow> a = b"
  unfolding deterministic_runner_def by blast

lemma run_nodes_deterministic:
  assumes "run_nodes runners im ns ctx r1" and "deterministic_registry runners"
      and "run_nodes runners im ns ctx r2"
  shows "r1 = r2"
  using assms
proof (induction arbitrary: r2 rule: run_nodes.induct)
  case (run_done ctx)
  from run_done.prems(2) show ?case by (rule run_nodes_NilE) simp
next
  case (run_unsupported node rest ctx)
  from run_unsupported.prems(2) run_unsupported.hyps show ?case
    by (elim run_nodes_ConsE) simp_all
next
  case (run_error node runner ctx1 ctx msg rest)
  from run_error.hyps(1) run_error.prems(1) have det: "deterministic_runner runner"
    unfolding deterministic_registry_def by blast
  note call = run_error.hyps(3) [unfolded run_error.hyps(2)]
  from run_error.prems(2) show ?case
  proof (rule run_nodes_ConsE)
    assume "runners (node_type node) = None"
    with run_error.hyps(1) show ?thesis by simp
  next
    fix runner' msg'
    assume s: "runners (node_type node) = Some runner'"
      and c: "runner' node (runner_args (node_type node) im) (node_log ctx node ''running'' None) (Inl msg')"
      and r: "r2 = Raised (NodeExecutionError msg')
                 (node_log (node_log ctx node ''running'' None) node ''error''
                    (Some [(''error'', ErrorVal msg')]))"
    from s run_error.hyps(1) have "runner' = runner" by simp
    with c have "runner node (runner_args (node_type node) im) (node_log ctx node ''running'' None) (Inl msg')"
      by simp
    from deterministic_runnerD [OF det call this] have "msg' = msg" by simp
    with r run_error.hyps(2) show ?thesis by simp
  next
    fix runner' out r
    assume s: "runners (node_type node) = Some runner'"
      and c: "runner' node (runner_args (node_type node) im) (node_log ctx node ''running'' None) (Inr out)"
    from s run_error.hyps(1) have "runner' = runner" by simp
    with c have "runner node (runner_args (node_type node) im) (node_log ctx node ''running'' None) (Inr out)"
      by simp
    from deterministic_runnerD [OF det call this] show ?thesis by simp
  qed
next
  case (run_step node runner ctx1 ctx out rest r)
  from run_step.hyps(1) run_step.prems(1) have det: "deterministic_runner runner"
    unfolding deterministic_registry_def by blast
  note call = run_step.hyps(3) [unfolded run_step.hyps(2)]
  from run_step.prems(2) show ?case
  proof (rule run_nodes_ConsE)
    assume "runners (node_type node) = None"
    with run_step.hyps(1) show ?thesis by simp
  next
    fix runner' msg'
    assume s: "runners (node_type node) = Some runner'"
      and c: "runner' node (runner_args (node_type node) im) (node_log ctx node ''running'' None) (Inl msg')"
    from s run_step.hyps(1) have "runner' = runner" by simp
    with c have "runner node (runner_args (node_type node) im) (node_log ctx node ''running'' None) (Inl msg')"
      by simp
    from deterministic_runnerD [OF det call this] show ?thesis by simp
  next
    fix runner' out'
    assume s: "runners (node_type node) = Some runner'"
      and c: "runner' node (runner_args (node_type node) im) (node_log ctx node ''running'' None) (Inr out')"
      and r: "run_nodes runners im rest
         (node_log
           (node_log ctx node ''running'' None
            \<lparr>outputs := AList.update (node_id node) out' (outputs (node_log ctx node ''running'' None))\<rparr>)
           node ''done'' (Some [(''outputs'', OutputsVal out')])) r2"
    from s run_step.hyps(1) have "runner' = runner" by simp
    with c have "runner node (runner_args (node_type node) im) (node_log ctx node ''running'' None) (Inr out')"
      by simp
    from deterministic_runnerD [OF det call this] have "out' = out" by simp
    with r have "run_nodes runners im rest
         (node_log (ctx1\<lparr>outputs := AList.update (node_id node) out (outputs ctx1)\<rparr>)
           node ''done'' (Some [(''outputs'', OutputsVal out)])) r2"
      unfolding run_step.hyps(2) by simp
    from run_step.IH [OF run_step.prems(1) this] show ?thesis .
  qed
qed

lemma execute_scheduled_iff:
  assumes "topo_sort workflow = Inr ordered"
  shows "execute_workflow runners ws workflow r \<longleftrightarrow>
           (\<exists>oc. run_nodes runners (build_input_map workflow) ordered ExecutionContext_init oc
                 \<and> r = result_of ws oc)"
proof
  assume "execute_workflow runners ws workflow r"
  then show "\<exists>oc. run_nodes runners (build_input_map workflow) ordered ExecutionContext_init oc
                 \<and> r = result_of ws oc"
  proof cases
    case (exec_graph_error e)
    with assms show ?thesis by simp
  next
    case (exec_raised ordered' e ctx)
    with assms have "run_nodes runners (build_input_map workflow) ordered ExecutionContext_init (Raised e ctx)"
      by simp
    moreover have "r = result_of ws (Raised e ctx)" using exec_raised(1) by (simp add: result_of_def)
    ultimately show ?thesis by blast
  next
    case (exec_returned ordered' ctx)
    with assms have "run_nodes runners (build_input_map workflow) ordered ExecutionContext_init (Returned ctx)"
      by simp
    moreover have "r = result_of ws (Returned ctx)" using exec_returned(1) by (simp add: result_of_def)
    ultimately show ?thesis by blast
  qed
next
  assume "\<exists>oc. run_nodes runners (build_input_map workflow) ordered ExecutionContext_init oc
                 \<and> r = result_of ws oc"
  then obtain oc where
    oc: "run_nodes runners (build_input_map workflow) ordered ExecutionContext_init oc"
    and r: "r = result_of ws oc" by blast
  show "execute_workflow runners ws workflow r"
  proof (cases oc)
    case (Raised e ctx)
    with oc r assms show ?thesis by (simp add: result_of_def exec_raised)
  next
    case (Returned ctx)
    with oc r assms show ?thesis by (simp add: result_of_def exec_returned)
  qed
qed

lemma execute_workflow_unique:
  assumes "deterministic_registry runners"
      and "execute_workflow runners ws workflow r1" and "execute_workflow runners ws workflow r2"
  shows "r1 = r2"
proof (cases "topo_sort workflow")
  case (Inl e)
  from assms(2,3) show ?thesis unfolding execute_graph_error_iff [OF Inl] by simp
next
  case (Inr ordered)
  from assms(2,3) obtain o1 o2 where
    "run_nodes runners (build_input_map workflow) ordered ExecutionContext_init o1" "r1 = result_of ws o1"
    "run_nodes runners (build_input_map workflow) ordered ExecutionContext_init o2" "r2 = result_of ws o2"
    unfolding execute_scheduled_iff [OF Inr] by blast
  with run_nodes_deterministic [OF _ assms(1)] show ?thesis by blast
qed

lemma run_stepI:
  assumes "runners (node_type node) = Some runner"
      and "runner node (runner_args (node_type node) im) (node_log ctx node ''running'' None) (Inr out)"
      and "run_nodes runners im rest
             (node_log
                (node_log ctx node ''running'' None
                 \<lparr>outputs := AList.update (node_id node) out (outputs (node_log ctx node ''running'' None))\<rparr>)
                node ''done'' (Some [(''outputs'', OutputsVal out)])) r"
  shows "run_nodes runners im (node # rest) ctx r"
  by (rule run_step [of runners node runner "node_log ctx node ''running'' None" ctx im out rest r,
        OF assms(1) refl assms(2) assms(3)])

lemma run_errorI:
  assumes "runners (node_type node) = Some runner"
      and "runner node (runner_args (node_type node) im) (node_log ctx node ''running'' None) (Inl msg)"
  shows "run_nodes runners im (node # rest) ctx
           (Raised (NodeExecutionError msg)
              (node_log (node_log ctx node ''running'' None) node ''error''
                 (Some [(''error'', ErrorVal msg)])))"
  by (rule run_error [of runners node runner "node_log ctx node ''running'' None" ctx im msg rest,
        OF assms(1) refl assms(2)])

lemma node_log_outputs: "outputs (node_log ctx node status extra) = outputs ctx"
  by (simp add: node_log_def Let_def)

lemma node_log_step: "step (node_log ctx node status extra) = step ctx + 1"
  by (simp add: node_log_def Let_def)

lemma node_log_logs_node:
  "\<exists>entry. logs (node_log ctx node status extra) = logs ctx @ [entry]
      \<and> log_node entry = node_id node \<and> log_step entry = step ctx + 1 \<and> log_status entry = status"
  by (simp add: node_log_def Let_def split: option.splits)

lemma node_log_running:
  "logs (node_log ctx node ''running'' None) = logs ctx @ [running_entry ctx node]"
  by (simp add: node_log_def Let_def running_entry_def)

lemma error_context_logs:
  "logs (error_context ctx node msg) = logs ctx @ [running_entry ctx node, error_entry ctx node msg]"
  by (simp add: error_context_def node_log_def Let_def running_entry_def error_entry_def)

lemma error_context_outputs: "outputs (error_context ctx node msg) = outputs ctx"
  by (simp add: error_context_def node_log_outputs)

lemma node_log_well_numbered:
  "well_numbered ctx \<Longrightarrow> well_numbered (node_log ctx node status extra)"
  by (simp add: well_numbered_def node_log_def Let_def split: option.splits)

lemma update_outputs_well_numbered:
  "well_numbered ctx \<Longrightarrow> well_numbered (ctx\<lparr>outputs := x\<rparr>)"
  by (simp add: well_numbered_def)

lemma run_nodes_well_numbered:
  "run_nodes runners im ns ctx oc \<Longrightarrow> well_numbered ctx \<Longrightarrow> well_numbered (final_context oc)"
proof (induction rule: run_nodes.induct)
  case (run_done ctx)
  then show ?case by simp
next
  case (run_unsupported node rest ctx)
  then show ?case by (simp add: node_log_well_numbered)
next
  case (run_error node runner ctx1 ctx msg rest)
  then show ?case by (simp add: node_log_well_numbered)
next
  case (run_step node runner ctx1 ctx out rest r)
  then show ?case by (simp add: node_log_well_numbered update_outputs_well_numbered)
qed

lemma node_log_log_nodes:
  "log_node ` set (logs (node_log ctx node status extra))
     = insert (node_id node) (log_node ` set (logs ctx))"
  by (simp add: node_log_def Let_def split: option.splits)

lemma run_nodes_log_nodes:
  "run_nodes runners im ns ctx oc \<Longrightarrow>
   log_node ` set (logs (final_context oc)) \<subseteq> log_node ` set (logs ctx) \<union> node_id ` set ns"
proof (induction rule: run_nodes.induct)
  case (run_done ctx)
  then show ?case by simp
next
  case (run_unsupported node rest ctx)
  show ?case unfolding final_context.simps node_log_log_nodes by auto
next
  case (run_error node runner ctx_r ctx msg rest)
  show ?case unfolding final_context.simps run_error.hyps(2) node_log_log_nodes by auto
next
  case (run_step node runner ctx_r ctx out rest r)
  have "logs (ctx_r\<lparr>outputs := AList.update (node_id node) out (outputs ctx_r)\<rparr>) = logs ctx_r"
    by simp
  then have "log_node ` set (logs (node_log (ctx_r\<lparr>outputs := AList.update (node_id node) out (outputs ctx_r)\<rparr>)
                 node ''done'' (Some [(''outputs'', OutputsVal out)])))
          = insert (node_id node) (log_node ` set (logs ctx))"
    by (simp add: node_log_log_nodes run_step.hyps(2))
  with run_step.IH
  have "log_node ` set (logs (final_context r))
          \<subseteq> insert (node_id node) (log_node ` set (logs ctx)) \<union> node_id ` set rest"
    by simp
  then show ?case by auto
qed

lemma run_nodes_output_keys:
  "run_nodes runners im ns ctx oc \<Longrightarrow>
   fst ` set (outputs (final_context oc)) \<subseteq> fst ` set (outputs ctx) \<union> node_id ` set ns"
proof (induction rule: run_nodes.induct)
  case (run_done ctx)
  then show ?case by simp
next
  case (run_unsupported node rest ctx)
  then show ?case by (auto simp: node_log_outputs)
next
  case (run_error node runner ctx1 ctx msg rest)
  then show ?case by (auto simp: node_log_outputs)
next
  case (run_step node runner ctx1 ctx out rest r)
  have "fst ` set (AList.update (node_id node) out (outputs ctx1))
          = {node_id node} \<union> fst ` set (outputs ctx)"
    unfolding run_step.hyps(2) by (simp add: dom_update node_log_outputs)
  with run_step.IH show ?case by (auto simp: node_log_outputs)
qed

lemma run_nodes_appendI:
  "run_nodes runners im xs ctx (Returned c) \<Longrightarrow> run_nodes runners im ys c r \<Longrightarrow>
   run_nodes runners im (xs @ ys) ctx r"
proof (induction xs arbitrary: ctx)
  case Nil
  from Nil.prems(1) have "c = ctx" by (rule run_nodes_NilE) simp
  with Nil.prems(2) show ?case by simp
next
  case (Cons x xs)
  from Cons.prems(1) show ?case
  proof (rule run_nodes_ConsE)
    fix runner out
    assume a: "runners (node_type x) = Some runner"
      and b: "runner x (runner_args (node_type x) im) (node_log ctx x ''running'' None) (Inr out)"
      and c: "run_nodes runners im xs
         (node_log
           (node_log ctx x ''running'' None
            \<lparr>outputs := AList.update (node_id x) out (outputs (node_log ctx x ''running'' None))\<rparr>)
           x ''done'' (Some [(''outputs'', OutputsVal out)])) (Returned c)"
    from Cons.IH [OF c Cons.prems(2)]
    have "run_nodes runners im (xs @ ys)
         (node_log
           (node_log ctx x ''running'' None
            \<lparr>outputs := AList.update (node_id x) out (outputs (node_log ctx x ''running'' None))\<rparr>)
           x ''done'' (Some [(''outputs'', OutputsVal out)])) r" .
    from run_stepI [of runners x runner im ctx out, OF a b this] show ?thesis by simp
  qed simp_all
qed

lemma run_nodes_appendD:
  "run_nodes runners im (xs @ ys) ctx r \<Longrightarrow>
   (\<exists>e c. r = Raised e c \<and> run_nodes runners im xs ctx (Raised e c))
   \<or> (\<exists>c. run_nodes runners im xs ctx (Returned c) \<and> run_nodes runners im ys c r)"
proof (induction xs arbitrary: ctx)
  case Nil
  then have "run_nodes runners im ys ctx r" by simp
  with run_done [of runners im ctx] show ?case by blast
next
  case (Cons x xs)
  from Cons.prems have "run_nodes runners im (x # (xs @ ys)) ctx r" by simp
  then show ?case
  proof (rule run_nodes_ConsE)
    assume "runners (node_type x) = None"
      and "r = Raised (UnsupportedNode (node_type x)) (node_log ctx x ''running'' None)"
    then show ?thesis using run_unsupported [of runners x im xs ctx] by simp
  next
    fix runner msg
    assume "runners (node_type x) = Some runner"
      and "runner x (runner_args (node_type x) im) (node_log ctx x ''running'' None) (Inl msg)"
      and "r = Raised (NodeExecutionError msg)
              (node_log (node_log ctx x ''running'' None) x ''error'' (Some [(''error'', ErrorVal msg)]))"
    then show ?thesis using run_errorI [of runners x runner im ctx msg xs] by simp
  next
    fix runner out
    assume a: "runners (node_type x) = Some runner"
      and b: "runner x (runner_args (node_type x) im) (node_log ctx x ''running'' None) (Inr out)"
      and c: "run_nodes runners im (xs @ ys)
         (node_log
           (node_log ctx x ''running'' None
            \<lparr>outputs := AList.update (node_id x) out (outputs (node_log ctx x ''running'' None))\<rparr>)
           x ''done'' (Some [(''outputs'', OutputsVal out)])) r"
    from Cons.IH [OF c] show ?thesis
    proof
      assume "\<exists>e c. r = Raised e c \<and> run_nodes runners im xs
         (node_log
           (node_log ctx x ''running'' None
            \<lparr>outputs := AList.update (node_id x) out (outputs (node_log ctx x ''running'' None))\<rparr>)
           x ''done'' (Some [(''outputs'', OutputsVal out)])) (Raised e c)"
      then obtain e c' where "r = Raised e c'" and "run_nodes runners im xs
         (node_log
           (node_log ctx x ''running'' None
            \<lparr>outputs := AList.update (node_id x) out (outputs (node_log ctx x ''running'' None))\<rparr>)
           x ''done'' (Some [(''outputs'', OutputsVal out)])) (Raised e c')" by blast
      with run_stepI [of runners x runner im ctx out, OF a b] show ?thesis by blast
    next
      assume "\<exists>c. run_nodes runners im xs
         (node_log
           (node_log ctx x ''running'' None
            \<lparr>outputs := AList.update (node_id x) out (outputs (node_log ctx x ''running'' None))\<rparr>)
           x ''done'' (Some [(''outputs'', OutputsVal out)])) (Returned c)
           \<and> run_nodes runners im ys c r"
      then obtain c' where "run_nodes runners im xs
         (node_log
           (node_log ctx x ''running'' None
            \<lparr>outputs := AList.update (node_id x) out (outputs (node_log ctx x ''running'' None))\<rparr>)
           x ''done'' (Some [(''outputs'', OutputsVal out)])) (Returned c')"
        and "run_nodes runners im ys c' r" by blast
      with run_stepI [of runners x runner im ctx out, OF a b] show ?thesis by blast
    qed
  qed
qed

lemma run_unsupported_iff:
  assumes "runners (node_type node) = None"
  shows "run_nodes runners im (node # post) ctx oc \<longleftrightarrow>
           oc = Raised (UnsupportedNode (node_type node)) (node_log ctx node ''running'' None)"
proof
  assume "run_nodes runners im (node # post) ctx oc"
  then show "oc = Raised (UnsupportedNode (node_type node)) (node_log ctx node ''running'' None)"
    by (rule run_nodes_ConsE) (use assms in simp_all)
next
  assume "oc = Raised (UnsupportedNode (node_type node)) (node_log ctx node ''running'' None)"
  with assms show "run_nodes runners im (node # post) ctx oc"
    by (simp add: run_unsupported)
qed

lemma init_well_numbered: "well_numbered ExecutionContext_init"
  by (simp add: well_numbered_def ExecutionContext_init_def)

lemma prefix_run_facts:
  assumes "topo_sort workflow = Inr (pre @ node # post)"
      and "run_nodes runners im pre ExecutionContext_init (Returned ctx)"
  shows "\<forall>n\<in>set (node # post). \<forall>e\<in>set (logs ctx). log_node e \<noteq> node_id n"
    and "\<forall>n\<in>set (node # post). map_of (outputs ctx) (node_id n) = None"
    and "\<forall>n\<in>set post. node_id n \<noteq> node_id node"
proof -
  from topo_sort_success(6) [OF assms(1)]
  have d: "distinct (map node_id pre @ map node_id (node # post))" by simp
  then have disj: "set (map node_id pre) \<inter> set (map node_id (node # post)) = {}"
    and d2: "distinct (map node_id (node # post))"
    by (simp_all only: distinct_append)
  from run_nodes_log_nodes [OF assms(2)]
  have l: "log_node ` set (logs ctx) \<subseteq> node_id ` set pre"
    by (simp add: ExecutionContext_init_def)
  from run_nodes_output_keys [OF assms(2)]
  have o: "fst ` set (outputs ctx) \<subseteq> node_id ` set pre"
    by (simp add: ExecutionContext_init_def)
  have fresh: "node_id n \<notin> node_id ` set pre" if "n \<in> set (node # post)" for n
  proof
    assume "node_id n \<in> node_id ` set pre"
    then have "node_id n \<in> set (map node_id pre)" by simp
    moreover from that have "node_id n \<in> set (map node_id (node # post))"
      by (simp only: set_map) (rule imageI)
    ultimately show False using disj by blast
  qed
  show "\<forall>n\<in>set (node # post). \<forall>e\<in>set (logs ctx). log_node e \<noteq> node_id n"
  proof (intro ballI notI)
    fix n e assume n: "n \<in> set (node # post)" and e: "e \<in> set (logs ctx)"
      and eq: "log_node e = node_id n"
    from e have "log_node e \<in> log_node ` set (logs ctx)" by (rule imageI)
    with l eq have "node_id n \<in> node_id ` set pre" by auto
    with fresh [OF n] show False ..
  qed
  show "\<forall>n\<in>set (node # post). map_of (outputs ctx) (node_id n) = None"
  proof
    fix n assume "n \<in> set (node # post)"
    from fresh [OF this] o have "node_id n \<notin> fst ` set (outputs ctx)" by blast
    then show "map_of (outputs ctx) (node_id n) = None" by (simp add: map_of_eq_None_iff)
  qed
  from d2 show "\<forall>n\<in>set post. node_id n \<noteq> node_id node" by (auto simp: image_iff)
qed

subsection \<open>Runs on concrete graphs, uniqueness, numbering\<close>

lemma run_text_node:
  "run_nodes sample_runners im [text_node ''T'' ''hi''] ExecutionContext_init (Returned after_T)"
proof (rule run_stepI [where runner = run_node_text and out = "[(''text'', ''hi'')]"])
  show "sample_runners (node_type (text_node ''T'' ''hi'')) = Some run_node_text"
    by (simp add: sample_runners_def text_node_def)
  show "run_node_text (text_node ''T'' ''hi'') (runner_args (node_type (text_node ''T'' ''hi'')) im)
          (node_log ExecutionContext_init (text_node ''T'' ''hi'') ''running'' None)
          (Inr [(''text'', ''hi'')])"
    by (simp add: run_node_text_def text_node_def runner_args_def)
  have "node_log
          (node_log ExecutionContext_init (text_node ''T'' ''hi'') ''running'' None
           \<lparr>outputs := AList.update (node_id (text_node ''T'' ''hi'')) [(''text'', ''hi'')]
              (outputs (node_log ExecutionContext_init (text_node ''T'' ''hi'') ''running'' None))\<rparr>)
          (text_node ''T'' ''hi'') ''done'' (Some [(''outputs'', OutputsVal [(''text'', ''hi'')])])
        = after_T"
    by (simp add: node_log_def Let_def ExecutionContext_init_def text_node_def after_T_def)
  then show "run_nodes sample_runners im []
     (node_log
          (node_log ExecutionContext_init (text_node ''T'' ''hi'') ''running'' None
           \<lparr>outputs := AList.update (node_id (text_node ''T'' ''hi'')) [(''text'', ''hi'')]
              (outputs (node_log ExecutionContext_init (text_node ''T'' ''hi'') ''running'' None))\<rparr>)
          (text_node ''T'' ''hi'') ''done'' (Some [(''outputs'', OutputsVal [(''text'', ''hi'')])]))
     (Returned after_T)"
    by (simp add: run_done)
qed

lemma sample_runners_deterministic: "deterministic_registry sample_runners"
  by (auto simp: deterministic_registry_def deterministic_runner_def sample_runners_def
        run_node_text_def failing_runner_def split: if_splits)

lemma api_unique:
  assumes "\<And>r. execute_workflow runners ws workflow r \<longleftrightarrow> r = Raised e ctx"
  shows "run_workflow_api runners ws workflow resp \<longleftrightarrow> resp = Inl (400, error_message e)"
proof
  assume "run_workflow_api runners ws workflow resp"
  then show "resp = Inl (400, error_message e)"
    by cases (simp_all add: assms)
next
  assume "resp = Inl (400, error_message e)"
  moreover have "execute_workflow runners ws workflow (Raised e ctx)" by (simp add: assms)
  ultimately show "run_workflow_api runners ws workflow resp" by (simp add: api_error)
qed

lemma execute_unique_iff:
  assumes "deterministic_registry runners" and "execute_workflow runners ws workflow r0"
  shows "execute_workflow runners ws workflow r \<longleftrightarrow> r = r0"
  using assms execute_workflow_unique by blast

lemma api_iff:
  "run_workflow_api runners ws workflow resp \<longleftrightarrow>
     (\<exists>r. execute_workflow runners ws workflow r \<and> resp = response_of r)"
proof
  assume "run_workflow_api runners ws workflow resp"
  then show "\<exists>r. execute_workflow runners ws workflow r \<and> resp = response_of r"
  proof cases
    case (api_result result)
    then have "execute_workflow runners ws workflow (Returned result) \<and> resp = response_of (Returned result)"
      by (simp add: response_of_def)
    then show ?thesis ..
  next
    case (api_error e ctx)
    then have "execute_workflow runners ws workflow (Raised e ctx) \<and> resp = response_of (Raised e ctx)"
      by (simp add: response_of_def)
    then show ?thesis ..
  qed
next
  assume "\<exists>r. execute_workflow runners ws workflow r \<and> resp = response_of r"
  then obtain r where r: "execute_workflow runners ws workflow r" "resp = response_of r" by blast
  show "run_workflow_api runners ws workflow resp"
  proof (cases r)
    case (Raised e ctx)
    with r show ?thesis by (simp add: response_of_def run_workflow_api.api_error)
  next
    case (Returned res)
    with r show ?thesis by (simp add: response_of_def run_workflow_api.api_result)
  qed
qed

lemma execute_well_numbered:
  assumes "execute_workflow runners ws workflow r"
  shows "case r of Raised e ctx \<Rightarrow> well_numbered ctx
         | Returned res \<Rightarrow> map log_step (result_logs res) = map int [1..<Suc (length (result_logs res))]"
proof (cases "topo_sort workflow")
  case (Inl e)
  with assms have "r = Raised e ExecutionContext_init" by (simp add: execute_graph_error_iff)
  then show ?thesis by (simp add: init_well_numbered)
next
  case (Inr ordered)
  with assms obtain oc where
    oc: "run_nodes runners (build_input_map workflow) ordered ExecutionContext_init oc"
    and r: "r = result_of ws oc"
    unfolding execute_scheduled_iff [OF Inr] by blast
  from run_nodes_well_numbered [OF oc init_well_numbered] have "well_numbered (final_context oc)" .
  with r show ?thesis by (cases oc) (simp_all add: result_of_def well_numbered_def)
qed

lemma run_text_step:
  assumes "node_type node = ''Text''"
      and "run_nodes sample_runners im rest
             (node_log
                (node_log ctx node ''running'' None
                 \<lparr>outputs := AList.update (node_id node)
                    [(''text'', case map_of (data node) ''text'' of None \<Rightarrow> '''' | Some t \<Rightarrow> t)]
                    (outputs (node_log ctx node ''running'' None))\<rparr>)
                node ''done''
                (Some [(''outputs'', OutputsVal
                   [(''text'', case map_of (data node) ''text'' of None \<Rightarrow> '''' | Some t \<Rightarrow> t)])])) r"
  shows "run_nodes sample_runners im (node # rest) ctx r"
proof (rule run_stepI [of sample_runners node run_node_text im ctx _ rest r])
  show "sample_runners (node_type node) = Some run_node_text"
    by (simp add: assms(1) sample_runners_def)
  show "run_node_text node (runner_args (node_type node) im) (node_log ctx node ''running'' None)
          (Inr [(''text'', case map_of (data node) ''text'' of None \<Rightarrow> '''' | Some t \<Rightarrow> t)])"
    by (simp add: run_node_text_def assms(1) runner_args_def)
  show "run_nodes sample_runners im rest
             (node_log
                (node_log ctx node ''running'' None
                 \<lparr>outputs := AList.update (node_id node)
                    [(''text'', case map_of (data node) ''text'' of None \<Rightarrow> '''' | Some t \<Rightarrow> t)]
                    (outputs (node_log ctx node ''running'' None))\<rparr>)
                node ''done''
                (Some [(''outputs'', OutputsVal
                   [(''text'', case map_of (data node) ''text'' of None \<Rightarrow> '''' | Some t \<Rightarrow> t)])])) r"
    by (rule assms(2))
qed

section \<open>Properties of the executor\<close>

text \<open>
  C2. When the list of scheduled ids is shorter than the list of nodes, and in particular
  when the valid edges contain a cycle, \<open>topo_sort\<close> raises \<open>GraphError\<close>, and for
  every registry the one outcome of \<open>execute_workflow\<close> is that exception with the context
  still as created: no log entry, no captured output. The outcome is the same for a registry
  whose runners never return, so no runner is called. The caller receives the status 400
  with the message.
\<close>

theorem execute_workflow_graph_error:
  assumes "(\<exists>ordered. kahn_order (workflow :: 'v Workflow) = Inr ordered
              \<and> length ordered < length (nodes workflow))
           \<or> \<not> acyclic (set (valid_edges workflow))"
  shows "topo_sort workflow = Inl GraphError
         \<and> (execute_workflow runners ws workflow r \<longleftrightarrow> r = Raised GraphError ExecutionContext_init)
         \<and> logs (ExecutionContext_init :: 'v ExecutionContext) = []
         \<and> outputs (ExecutionContext_init :: 'v ExecutionContext) = []
         \<and> (run_workflow_api runners ws workflow resp
              \<longleftrightarrow> resp = Inl (400, error_message GraphError))"
proof -
  have t: "topo_sort workflow = Inl GraphError"
    using assms
  proof
    assume "\<exists>ordered. kahn_order workflow = Inr ordered \<and> length ordered < length (nodes workflow)"
    then obtain ordered where k: "kahn_order workflow = Inr ordered"
      and "length ordered \<noteq> length (nodes workflow)" by auto
    then show ?thesis using topo_sort_unfold(1) by blast
  next
    assume "\<not> acyclic (set (valid_edges workflow))"
    then show ?thesis by (simp add: topo_sort_fails_iff)
  qed
  from t execute_graph_error_iff [OF t] api_graph_error_iff [OF t]
  show ?thesis by (simp add: ExecutionContext_init_def)
qed

theorem execute_workflow_graph_error_witness:
  "\<not> acyclic (set (valid_edges cycle_wf))
   \<and> kahn_order cycle_wf = Inr []
   \<and> topo_sort cycle_wf = Inl GraphError
   \<and> execute_workflow blocked_runners ''WORKSPACE'' cycle_wf (Raised GraphError ExecutionContext_init)
   \<and> run_workflow_api blocked_runners ''WORKSPACE'' cycle_wf (Inl (400, error_message GraphError))"
proof -
  have c: "\<not> acyclic (set (valid_edges cycle_wf))"
    by (simp add: cycle_wf_def graph_defs rtrancl_insert)
  have k: "kahn_order cycle_wf = Inr []"
    by (simp add: sched_defs cycle_wf_def mk_node_def mk_link_def)
  from c have h: "(\<exists>ordered. kahn_order cycle_wf = Inr ordered \<and> length ordered < length (nodes cycle_wf))
           \<or> \<not> acyclic (set (valid_edges cycle_wf))" by blast
  from execute_workflow_graph_error [OF h, of blocked_runners "''WORKSPACE''"
      "Raised GraphError ExecutionContext_init" "Inl (400, error_message GraphError)"] c k
  show ?thesis by simp
qed

text \<open>
  C10. When two declared nodes share an id, the scheduled ids are distinct and therefore
  fewer than the nodes, whether or not the links form a cycle; \<open>topo_sort\<close> raises
  \<open>GraphError\<close>, and for every registry the one outcome of \<open>execute_workflow\<close> is that
  exception with the context still as created, with no log entry.
\<close>

theorem duplicate_ids_graph_error:
  assumes "\<not> distinct (node_ids (workflow :: 'v Workflow))"
  shows "(\<exists>ordered. kahn_order workflow = Inr ordered \<and> distinct ordered
            \<and> length ordered < length (nodes workflow))
         \<and> topo_sort workflow = Inl GraphError
         \<and> (execute_workflow runners ws workflow r \<longleftrightarrow> r = Raised GraphError ExecutionContext_init)
         \<and> logs (ExecutionContext_init :: 'v ExecutionContext) = []"
proof -
  from kahn_order_total obtain ordered where k: "kahn_order workflow = Inr ordered"
    by blast
  have "card (set (node_ids workflow)) \<noteq> length (node_ids workflow)"
    using assms card_distinct by blast
  with card_length [of "node_ids workflow"]
  have "card (set (node_ids workflow)) < length (nodes workflow)"
    by (simp add: node_ids_def)
  with kahn_order_length(1) [OF k] have l: "length ordered < length (nodes workflow)" by simp
  then have t: "topo_sort workflow = Inl GraphError"
    using topo_sort_unfold(1) [OF k] by simp
  from k l kahn_order_facts(1) [OF k] t execute_graph_error_iff [OF t]
  show ?thesis by (auto simp: ExecutionContext_init_def)
qed

theorem duplicate_ids_graph_error_witness:
  "\<not> distinct (node_ids dup_wf) \<and> acyclic (set (valid_edges dup_wf))
   \<and> kahn_order dup_wf = Inr [''A'']
   \<and> topo_sort dup_wf = Inl GraphError
   \<and> execute_workflow blocked_runners ''WORKSPACE'' dup_wf (Raised GraphError ExecutionContext_init)"
proof -
  have d: "\<not> distinct (node_ids dup_wf)" by (simp add: dup_wf_def graph_defs)
  have a: "acyclic (set (valid_edges dup_wf))" by (simp add: dup_wf_def graph_defs acyclic_empty)
  have k: "kahn_order dup_wf = Inr [''A'']"
    by (simp add: sched_defs dup_wf_def mk_node_def mk_link_def)
  from duplicate_ids_graph_error [OF d, of blocked_runners "''WORKSPACE''"
      "Raised GraphError ExecutionContext_init"] d a k
  show ?thesis by simp
qed

text \<open>
  C7. Let the scheduled order reach a node whose type has no runner: \<open>topo_sort\<close> returns
  \<open>pre @ node # post\<close> and the registry has nothing for the type of \<open>node\<close>. Then no
  run returns a result dictionary, to \<open>execute_workflow\<close> or to the caller. From any
  context the loop at \<open>node\<close> has one outcome, whatever the registry holds for other
  types: \<open>UnsupportedNode\<close>, raised after the entry with status running and outside the
  \<^verbatim>\<open>try\<close>, so that no runner is called and no entry with status done or error follows.
  When the nodes before it have run and returned, the whole run ends so: the log ends with
  that entry, it is the only entry of the log for the node, no output is captured for the
  node, and the caller receives the status 400 with the message. With deterministic runners
  this is the only outcome of the run.
\<close>

theorem unsupported_node_aborts:
  assumes "topo_sort workflow = Inr (pre @ node # post)"
      and "runners (node_type node) = None"
  shows "\<not> execute_workflow runners ws workflow (Returned res)
         \<and> \<not> run_workflow_api runners ws workflow (Inr res)
         \<and> (run_nodes runners (build_input_map workflow) (node # post) c oc \<longleftrightarrow>
              oc = Raised (UnsupportedNode (node_type node)) (node_log c node ''running'' None))
         \<and> (run_nodes runners (build_input_map workflow) pre ExecutionContext_init (Returned ctx) \<longrightarrow>
              execute_workflow runners ws workflow
                (Raised (UnsupportedNode (node_type node)) (node_log ctx node ''running'' None))
            \<and> run_workflow_api runners ws workflow
                (Inl (400, error_message (UnsupportedNode (node_type node))))
            \<and> logs (node_log ctx node ''running'' None) = logs ctx @ [running_entry ctx node]
            \<and> filter (\<lambda>e. log_node e = node_id node) (logs (node_log ctx node ''running'' None))
                = [running_entry ctx node]
            \<and> log_status (running_entry ctx node) = ''running''
            \<and> outputs (node_log ctx node ''running'' None) = outputs ctx
            \<and> map_of (outputs ctx) (node_id node) = None
            \<and> (deterministic_registry runners \<longrightarrow>
                 (execute_workflow runners ws workflow r \<longleftrightarrow>
                    r = Raised (UnsupportedNode (node_type node)) (node_log ctx node ''running'' None))))"
proof -
  let ?im = "build_input_map workflow"
  let ?e = "UnsupportedNode (node_type node)"
  note stop = run_unsupported_iff [of runners node, OF assms(2)]
  have no_run: "\<not> run_nodes runners ?im (pre @ node # post) ExecutionContext_init (Returned c')" for c'
  proof
    assume "run_nodes runners ?im (pre @ node # post) ExecutionContext_init (Returned c')"
    from run_nodes_appendD [OF this] obtain c2 where
      "run_nodes runners ?im (node # post) c2 (Returned c')" by auto
    then show False unfolding stop by simp
  qed
  have a: "\<not> execute_workflow runners ws workflow (Returned res)"
  proof
    assume "execute_workflow runners ws workflow (Returned res)"
    then obtain oc where "run_nodes runners ?im (pre @ node # post) ExecutionContext_init oc"
      and "Returned res = result_of ws oc"
      unfolding execute_scheduled_iff [OF assms(1)] by blast
    then show False using no_run by (cases oc) (simp_all add: result_of_def)
  qed
  have b: "\<not> run_workflow_api runners ws workflow (Inr res)"
  proof
    assume "run_workflow_api runners ws workflow (Inr res)"
    then show False using a by cases simp_all
  qed
  have d: "execute_workflow runners ws workflow (Raised ?e (node_log ctx node ''running'' None))
            \<and> run_workflow_api runners ws workflow (Inl (400, error_message ?e))
            \<and> logs (node_log ctx node ''running'' None) = logs ctx @ [running_entry ctx node]
            \<and> filter (\<lambda>e. log_node e = node_id node) (logs (node_log ctx node ''running'' None))
                = [running_entry ctx node]
            \<and> log_status (running_entry ctx node) = ''running''
            \<and> outputs (node_log ctx node ''running'' None) = outputs ctx
            \<and> map_of (outputs ctx) (node_id node) = None
            \<and> (deterministic_registry runners \<longrightarrow>
                 (execute_workflow runners ws workflow r \<longleftrightarrow>
                    r = Raised ?e (node_log ctx node ''running'' None)))"
    if p: "run_nodes runners ?im pre ExecutionContext_init (Returned ctx)"
  proof -
    have "run_nodes runners ?im (node # post) ctx (Raised ?e (node_log ctx node ''running'' None))"
      unfolding stop by simp
    from run_nodes_appendI [OF p this]
    have "run_nodes runners ?im (pre @ node # post) ExecutionContext_init
            (Raised ?e (node_log ctx node ''running'' None))" .
    from exec_raised [OF assms(1) this]
    have e: "execute_workflow runners ws workflow (Raised ?e (node_log ctx node ''running'' None))" .
    then have f: "run_workflow_api runners ws workflow (Inl (400, error_message ?e))"
      by (rule api_error)
    from prefix_run_facts(1) [OF assms(1) p]
    have "filter (\<lambda>e. log_node e = node_id node) (logs ctx) = []"
      by (simp add: filter_empty_conv)
    then have g: "filter (\<lambda>e. log_node e = node_id node) (logs (node_log ctx node ''running'' None))
                = [running_entry ctx node]"
      by (simp add: node_log_running running_entry_def)
    from prefix_run_facts(2) [OF assms(1) p] have h: "map_of (outputs ctx) (node_id node) = None"
      by simp
    from e f g h execute_unique_iff [OF _ e] show ?thesis
      by (simp add: node_log_running node_log_outputs running_entry_def)
  qed
  from a b stop d show ?thesis by blast
qed

theorem unsupported_node_aborts_witness:
  "topo_sort bogus_wf = Inr ([text_node ''T'' ''hi''] @ mk_node ''X'' ''Bogus'' # [mk_node ''U'' ''Text''])
   \<and> sample_runners (node_type (mk_node ''X'' ''Bogus'')) = None
   \<and> run_nodes sample_runners (build_input_map bogus_wf) [text_node ''T'' ''hi'']
       ExecutionContext_init (Returned after_T)
   \<and> execute_workflow sample_runners ''WORKSPACE'' bogus_wf
       (Raised (UnsupportedNode ''Bogus'') (node_log after_T (mk_node ''X'' ''Bogus'') ''running'' None))
   \<and> map (\<lambda>e. (log_step e, log_node e, log_status e))
        (logs (node_log after_T (mk_node ''X'' ''Bogus'') ''running'' None))
       = [(1, ''T'', ''running''), (2, ''T'', ''done''), (3, ''X'', ''running'')]
   \<and> run_workflow_api sample_runners ''WORKSPACE'' bogus_wf (Inl (400, ''Nodo no soportado: Bogus''))"
proof -
  have k: "kahn_order bogus_wf = Inr [''T'', ''X'', ''U'']"
    by (simp add: sched_defs bogus_wf_def mk_node_def mk_link_def text_node_def)
  have t: "topo_sort bogus_wf
             = Inr ([text_node ''T'' ''hi''] @ mk_node ''X'' ''Bogus'' # [mk_node ''U'' ''Text''])"
    unfolding topo_sort_def k
    by (simp add: bogus_wf_def mk_node_def text_node_def nodes_by_id_of_def)
  have n: "sample_runners (node_type (mk_node ''X'' ''Bogus'')) = None"
    by (simp add: sample_runners_def mk_node_def)
  note p = run_text_node [of "build_input_map bogus_wf"]
  have l: "map (\<lambda>e. (log_step e, log_node e, log_status e))
        (logs (node_log after_T (mk_node ''X'' ''Bogus'') ''running'' None))
       = [(1, ''T'', ''running''), (2, ''T'', ''done''), (3, ''X'', ''running'')]"
    by (simp add: node_log_def Let_def after_T_def mk_node_def)
  from unsupported_node_aborts [of bogus_wf "[text_node ''T'' ''hi'']" "mk_node ''X'' ''Bogus''"
      "[mk_node ''U'' ''Text'']" sample_runners "''WORKSPACE''" _ _ _ after_T, OF t n] p
  have "execute_workflow sample_runners ''WORKSPACE'' bogus_wf
       (Raised (UnsupportedNode (node_type (mk_node ''X'' ''Bogus'')))
         (node_log after_T (mk_node ''X'' ''Bogus'') ''running'' None))
     \<and> run_workflow_api sample_runners ''WORKSPACE'' bogus_wf
         (Inl (400, error_message (UnsupportedNode (node_type (mk_node ''X'' ''Bogus'')))))"
    by blast
  then have "execute_workflow sample_runners ''WORKSPACE'' bogus_wf
       (Raised (UnsupportedNode ''Bogus'') (node_log after_T (mk_node ''X'' ''Bogus'') ''running'' None))
     \<and> run_workflow_api sample_runners ''WORKSPACE'' bogus_wf (Inl (400, ''Nodo no soportado: Bogus''))"
    by (simp add: mk_node_def error_message_def)
  with t n p l show ?thesis by blast
qed

text \<open>
  C8. Let the nodes before \<open>node\<close> in the scheduled order have run and returned, and let
  the runner of \<open>node\<close> raise with message \<open>msg\<close>. Then the run ends with that exception:
  the log is the log so far followed by the entry with status running and the entry with
  status error that carries the message, these two are the only entries for the node, no
  node after it in the order has an entry or captured outputs, the outputs of the failing
  node are not captured, and the caller receives the status 400 with the message and nothing
  of the context. Nothing is assumed of the runners of the later nodes: none is called.
  With deterministic runners this is the only outcome, for \<open>execute_workflow\<close> and for
  the caller.
\<close>

theorem handler_failure_fail_fast:
  assumes "topo_sort workflow = Inr (pre @ node # post)"
      and "run_nodes runners (build_input_map workflow) pre ExecutionContext_init (Returned ctx)"
      and "runners (node_type node) = Some runner"
      and "runner node (runner_args (node_type node) (build_input_map workflow))
             (node_log ctx node ''running'' None) (Inl msg)"
  shows "execute_workflow runners ws workflow
           (Raised (NodeExecutionError msg) (error_context ctx node msg))
         \<and> logs (error_context ctx node msg)
             = logs ctx @ [running_entry ctx node, error_entry ctx node msg]
         \<and> filter (\<lambda>e. log_node e = node_id node) (logs (error_context ctx node msg))
             = [running_entry ctx node, error_entry ctx node msg]
         \<and> (\<forall>n\<in>set post. \<forall>e\<in>set (logs (error_context ctx node msg)). log_node e \<noteq> node_id n)
         \<and> outputs (error_context ctx node msg) = outputs ctx
         \<and> map_of (outputs (error_context ctx node msg)) (node_id node) = None
         \<and> (\<forall>n\<in>set post. map_of (outputs (error_context ctx node msg)) (node_id n) = None)
         \<and> run_workflow_api runners ws workflow (Inl (400, msg))
         \<and> (deterministic_registry runners \<longrightarrow>
              (execute_workflow runners ws workflow r \<longleftrightarrow>
                 r = Raised (NodeExecutionError msg) (error_context ctx node msg))
            \<and> (run_workflow_api runners ws workflow resp \<longleftrightarrow> resp = Inl (400, msg)))"
proof -
  let ?im = "build_input_map workflow"
  let ?c = "error_context ctx node msg"
  from run_errorI [of runners node runner ?im ctx msg post, OF assms(3,4)]
  have "run_nodes runners ?im (node # post) ctx (Raised (NodeExecutionError msg) ?c)"
    by (simp add: error_context_def)
  from run_nodes_appendI [OF assms(2) this]
  have "run_nodes runners ?im (pre @ node # post) ExecutionContext_init
          (Raised (NodeExecutionError msg) ?c)" .
  from exec_raised [OF assms(1) this]
  have e: "execute_workflow runners ws workflow (Raised (NodeExecutionError msg) ?c)" .
  from api_error [OF e] have f: "run_workflow_api runners ws workflow (Inl (400, msg))"
    by (simp add: error_message_def)
  note pf = prefix_run_facts [OF assms(1,2)]
  from pf(1) have "filter (\<lambda>e. log_node e = node_id node) (logs ctx) = []"
    by (simp add: filter_empty_conv)
  then have g: "filter (\<lambda>e. log_node e = node_id node) (logs ?c)
             = [running_entry ctx node, error_entry ctx node msg]"
    by (simp add: error_context_logs running_entry_def error_entry_def)
  have h: "\<forall>n\<in>set post. \<forall>e\<in>set (logs ?c). log_node e \<noteq> node_id n"
    using pf(1) pf(3) by (auto simp: error_context_logs running_entry_def error_entry_def)
  have i: "map_of (outputs ?c) (node_id node) = None"
    "\<forall>n\<in>set post. map_of (outputs ?c) (node_id n) = None"
    using pf(2) by (simp_all add: error_context_outputs)
  have u: "execute_workflow runners ws workflow r \<longleftrightarrow> r = Raised (NodeExecutionError msg) ?c"
    if "deterministic_registry runners" for r
    by (rule execute_unique_iff [OF that e])
  have v: "run_workflow_api runners ws workflow resp \<longleftrightarrow> resp = Inl (400, msg)"
    if "deterministic_registry runners"
    using api_unique [of runners ws workflow "NodeExecutionError msg" ?c resp] u [OF that]
    by (simp add: error_message_def)
  from e g h i f u v show ?thesis
    by (simp add: error_context_logs error_context_outputs)
qed

theorem handler_failure_fail_fast_witness:
  "topo_sort fail_wf = Inr ([text_node ''T'' ''hi''] @ mk_node ''F'' ''Fail'' # [mk_node ''U'' ''Text''])
   \<and> run_nodes sample_runners (build_input_map fail_wf) [text_node ''T'' ''hi'']
       ExecutionContext_init (Returned after_T)
   \<and> sample_runners (node_type (mk_node ''F'' ''Fail'')) = Some failing_runner
   \<and> failing_runner (mk_node ''F'' ''Fail'')
       (runner_args (node_type (mk_node ''F'' ''Fail'')) (build_input_map fail_wf))
       (node_log after_T (mk_node ''F'' ''Fail'') ''running'' None)
       (Inl ''handler failed'')
   \<and> execute_workflow sample_runners ''WORKSPACE'' fail_wf
       (Raised (NodeExecutionError ''handler failed'')
          (error_context after_T (mk_node ''F'' ''Fail'') ''handler failed''))
   \<and> map (\<lambda>e. (log_step e, log_node e, log_status e))
        (logs (error_context after_T (mk_node ''F'' ''Fail'') ''handler failed''))
       = [(1, ''T'', ''running''), (2, ''T'', ''done''), (3, ''F'', ''running''), (4, ''F'', ''error'')]
   \<and> outputs (error_context after_T (mk_node ''F'' ''Fail'') ''handler failed'')
       = [(''T'', [(''text'', ''hi'')])]
   \<and> run_workflow_api sample_runners ''WORKSPACE'' fail_wf (Inl (400, ''handler failed''))
   \<and> {r. execute_workflow sample_runners ''WORKSPACE'' fail_wf r}
       = {Raised (NodeExecutionError ''handler failed'')
            (error_context after_T (mk_node ''F'' ''Fail'') ''handler failed'')}"
proof -
  let ?F = "mk_node ''F'' ''Fail'' :: string Node"
  let ?m = "''handler failed''"
  have k: "kahn_order fail_wf = Inr [''T'', ''F'', ''U'']"
    by (simp add: sched_defs fail_wf_def mk_node_def mk_link_def text_node_def)
  have t: "topo_sort fail_wf
             = Inr ([text_node ''T'' ''hi''] @ ?F # [mk_node ''U'' ''Text''])"
    unfolding topo_sort_def k
    by (simp add: fail_wf_def mk_node_def text_node_def nodes_by_id_of_def)
  note p = run_text_node [of "build_input_map fail_wf"]
  have s: "sample_runners (node_type ?F) = Some failing_runner"
    by (simp add: sample_runners_def mk_node_def)
  have c: "failing_runner ?F (runner_args (node_type ?F) (build_input_map fail_wf))
       (node_log after_T ?F ''running'' None) (Inl ?m)"
    by (simp add: failing_runner_def)
  have l: "map (\<lambda>e. (log_step e, log_node e, log_status e)) (logs (error_context after_T ?F ?m))
       = [(1, ''T'', ''running''), (2, ''T'', ''done''), (3, ''F'', ''running''), (4, ''F'', ''error'')]"
    by (simp add: error_context_def node_log_def Let_def after_T_def mk_node_def)
  have o: "outputs (error_context after_T ?F ?m) = [(''T'', [(''text'', ''hi'')])]"
    by (simp add: error_context_outputs after_T_def)
  note d = sample_runners_deterministic
  note h = handler_failure_fail_fast [OF t p s c, of "''WORKSPACE''"]
  from h have e: "execute_workflow sample_runners ''WORKSPACE'' fail_wf
       (Raised (NodeExecutionError ?m) (error_context after_T ?F ?m))" by blast
  from h have a: "run_workflow_api sample_runners ''WORKSPACE'' fail_wf (Inl (400, ?m))" by blast
  from h d have "\<And>r. execute_workflow sample_runners ''WORKSPACE'' fail_wf r \<longleftrightarrow>
       r = Raised (NodeExecutionError ?m) (error_context after_T ?F ?m)" by blast
  then have u: "{r. execute_workflow sample_runners ''WORKSPACE'' fail_wf r}
       = {Raised (NodeExecutionError ?m) (error_context after_T ?F ?m)}" by auto
  from t p s c e l o a u show ?thesis by blast
qed

text \<open>
  C9. With a registry of deterministic runners, two executions of one graph have the same
  outcome: the same exception with the same context, or the same result dictionary, hence
  the same outputs and the same log entries with the same step numbers; the scheduled order
  is a function of the graph alone (\<open>topo_sort\<close>). The step numbers of a log are
  1, 2, 3, ... in every run. The caller receives the same response.
\<close>

theorem execute_workflow_deterministic:
  assumes "deterministic_registry runners"
      and "execute_workflow runners ws workflow r1"
      and "execute_workflow runners ws workflow r2"
  shows "r1 = r2
         \<and> (\<forall>e ctx. r1 = Raised e ctx \<longrightarrow>
               map log_step (logs ctx) = map int [1..<Suc (length (logs ctx))])
         \<and> (\<forall>res. r1 = Returned res \<longrightarrow>
               map log_step (result_logs res) = map int [1..<Suc (length (result_logs res))])
         \<and> (\<forall>a b. run_workflow_api runners ws workflow a \<and> run_workflow_api runners ws workflow b
               \<longrightarrow> a = b)"
proof -
  have u: "r1 = r2" by (rule execute_workflow_unique [OF assms])
  from execute_well_numbered [OF assms(2)]
  have n1: "\<forall>e ctx. r1 = Raised e ctx \<longrightarrow>
               map log_step (logs ctx) = map int [1..<Suc (length (logs ctx))]"
    by (auto simp: well_numbered_def)
  from execute_well_numbered [OF assms(2)]
  have n2: "\<forall>res. r1 = Returned res \<longrightarrow>
               map log_step (result_logs res) = map int [1..<Suc (length (result_logs res))]"
    by auto
  have a: "\<forall>a b. run_workflow_api runners ws workflow a \<and> run_workflow_api runners ws workflow b
               \<longrightarrow> a = b"
    unfolding api_iff using execute_workflow_unique [OF assms(1)] by blast
  from u n1 n2 a show ?thesis by blast
qed

theorem execute_workflow_deterministic_witness:
  "deterministic_registry sample_runners
   \<and> execute_workflow sample_runners ''WORKSPACE'' pair_wf pair_result
   \<and> {r. execute_workflow sample_runners ''WORKSPACE'' pair_wf r} = {pair_result}"
proof -
  let ?A = "\<lparr>node_id = ''A'', node_type = ''Text'', position = [], data = [(''text'', ''hello'')]\<rparr>
              :: string Node"
  let ?c = "\<lparr>outputs = [(''A'', [(''text'', ''hello'')]), (''B'', [(''text'', '''')])],
             logs = [\<lparr>log_step = 1, log_node = ''A'', log_type = ''Text'', log_status = ''running'',
                       log_extra = []\<rparr>,
                     \<lparr>log_step = 2, log_node = ''A'', log_type = ''Text'', log_status = ''done'',
                       log_extra = [(''outputs'', OutputsVal [(''text'', ''hello'')])]\<rparr>,
                     \<lparr>log_step = 3, log_node = ''B'', log_type = ''Text'', log_status = ''running'',
                       log_extra = []\<rparr>,
                     \<lparr>log_step = 4, log_node = ''B'', log_type = ''Text'', log_status = ''done'',
                       log_extra = [(''outputs'', OutputsVal [(''text'', '''')])]\<rparr>],
             step = 4\<rparr> :: string ExecutionContext"
  have k: "kahn_order pair_wf = Inr [''A'', ''B'']"
    by (simp add: sched_defs pair_wf_def mk_node_def mk_link_def)
  have t: "topo_sort pair_wf = Inr [?A, mk_node ''B'' ''Text'']"
    unfolding topo_sort_def k by (simp add: pair_wf_def mk_node_def nodes_by_id_of_def)
  have "run_nodes sample_runners (build_input_map pair_wf) [?A, mk_node ''B'' ''Text'']
          ExecutionContext_init (Returned ?c)"
    apply (rule run_text_step, simp)
    apply (rule run_text_step, simp add: mk_node_def)
    apply (simp add: node_log_def Let_def ExecutionContext_init_def mk_node_def run_done)
    done
  from exec_returned [OF t this, of "''WORKSPACE''"]
  have e: "execute_workflow sample_runners ''WORKSPACE'' pair_wf pair_result"
    by (simp add: pair_result_def)
  note d = sample_runners_deterministic
  have "r = pair_result" if "execute_workflow sample_runners ''WORKSPACE'' pair_wf r" for r
    using execute_workflow_deterministic [OF d that e] by simp
  with e have "{r. execute_workflow sample_runners ''WORKSPACE'' pair_wf r} = {pair_result}"
    by auto
  with d e show ?thesis by simp
qed

end
